theory Spec2Isabelle
  imports Complex_Main "HOL-Library.Multiset"
begin

section \<open>Shape functions (funcs.cpp)\<close>

subsection \<open>Data model\<close>

text \<open>
  The reference-space location handed to the shape functions (\<^verbatim>\<open>struct point\<close>, read as
  \<^verbatim>\<open>in_rs.x\<close>, \<^verbatim>\<open>in_rs.y\<close>, \<^verbatim>\<open>in_rs.z\<close> in funcs.cpp).  A \<^verbatim>\<open>double\<close> that is only
  multiplied and added is read as a real number: the shape functions are then the
  polynomials the source writes down.
\<close>

record point =
  x :: real
  y :: real
  z :: real

text \<open>
  The two ways a call leaves the normal path: \<^verbatim>\<open>std::vector::resize\<close> throws
  \<^verbatim>\<open>std::length_error\<close> when the requested size exceeds \<^verbatim>\<open>max_size()\<close>, and a write
  through a \<^verbatim>\<open>double*\<close> past the end of the caller's buffer is undefined behaviour,
  at which the model stops.
\<close>

datatype error = LengthError | OutOfBounds

text \<open>
  \<^verbatim>\<open>out_shape.resize(nNodes)\<close> with \<^verbatim>\<open>int nNodes\<close>: the argument is converted to the
  unsigned 64-bit \<^verbatim>\<open>size_type\<close>, so a negative count becomes a huge size.  \<open>max_size\<close> is
  the bound of a vector of 8-byte elements on an LP64 platform
  (\<^verbatim>\<open>PTRDIFF_MAX / sizeof(double)\<close>).  A vector that grows is filled with
  value-initialised elements (\<open>0\<close>), one that shrinks keeps its first elements.
\<close>

definition size_type_of_int :: "int \<Rightarrow> nat" where
  "size_type_of_int n = nat (n mod 2 ^ 64)"

definition max_size :: nat where
  "max_size = (2 ^ 63 - 1) div 8"

definition resize :: "real list \<Rightarrow> int \<Rightarrow> error + real list" where
  "resize v n =
     (let sz = size_type_of_int n in
      if max_size < sz then Inl LengthError
      else Inr (take sz v @ replicate (sz - length v) 0))"

subsection \<open>Quadrilaterals\<close>

text \<open>
  The pointer overload \<^verbatim>\<open>shape_quad(const point&, double*, int)\<close>.  The buffer is the
  list of the doubles the pointer addresses; the \<^verbatim>\<open>switch\<close> has the cases 4 and 8 and
  no default.
\<close>

definition shape_quad_ptr :: "point \<Rightarrow> real list \<Rightarrow> int \<Rightarrow> error + real list" where
  "shape_quad_ptr in_rs out_shape nNodes =
     (let xi = x in_rs; eta = y in_rs in
      if nNodes = 4 then
        (if length out_shape < 4 then Inl OutOfBounds
         else Inr (out_shape
           [0 := 0.25*(1-xi)*(1-eta),
            1 := 0.25*(1+xi)*(1-eta),
            2 := 0.25*(1+xi)*(1+eta),
            3 := 0.25*(1-xi)*(1+eta)]))
      else if nNodes = 8 then
        (if length out_shape < 8 then Inl OutOfBounds
         else Inr (out_shape
           [0 := -0.25*(1-xi)*(1-eta)*(1+eta+xi),
            1 := -0.25*(1+xi)*(1-eta)*(1+eta-xi),
            2 := -0.25*(1+xi)*(1+eta)*(1-eta-xi),
            3 := -0.25*(1-xi)*(1+eta)*(1-eta+xi),
            4 := 0.5*(1-xi)*(1+xi)*(1-eta),
            5 := 0.5*(1+xi)*(1+eta)*(1-eta),
            6 := 0.5*(1-xi)*(1+xi)*(1+eta),
            7 := 0.5*(1-xi)*(1+eta)*(1-eta)]))
      else Inr out_shape)"

text \<open>The vector overload: resize, then the pointer overload on the vector's storage.\<close>

definition shape_quad :: "point \<Rightarrow> real list \<Rightarrow> int \<Rightarrow> error + real list" where
  "shape_quad in_rs out_shape nNodes =
     (case resize out_shape nNodes of
        Inl e \<Rightarrow> Inl e
      | Inr v \<Rightarrow> shape_quad_ptr in_rs v nNodes)"

subsection \<open>Hexahedra\<close>

definition XI :: "real list" where
  "XI = [-1,1,1,-1,-1,1,1,-1]"

definition ETA :: "real list" where
  "ETA = [-1,-1,1,1,-1,-1,1,1]"

definition MU :: "real list" where
  "MU = [-1,-1,-1,-1,1,1,1,1]"

text \<open>The body of the corner-node loop \<^verbatim>\<open>for (int i=0; i<8; i++)\<close> of the 20-node case.\<close>

definition hex20_corner :: "real \<Rightarrow> real \<Rightarrow> real \<Rightarrow> real list \<Rightarrow> nat \<Rightarrow> real list" where
  "hex20_corner xi eta mu out_shape i =
     out_shape[i := 0.125*(1+xi*XI!i)*(1+eta*ETA!i)*(1+mu*MU!i)*(xi*XI!i+eta*ETA!i+mu*MU!i-2)]"

definition shape_hex_ptr :: "point \<Rightarrow> real list \<Rightarrow> int \<Rightarrow> error + real list" where
  "shape_hex_ptr in_rst out_shape nNodes =
     (let xi = x in_rst; eta = y in_rst; mu = z in_rst in
      if nNodes = 8 then
        (if length out_shape < 8 then Inl OutOfBounds
         else Inr (out_shape
           [0 := 0.125*(1-xi)*(1-eta)*(1-mu),
            1 := 0.125*(1+xi)*(1-eta)*(1-mu),
            2 := 0.125*(1+xi)*(1+eta)*(1-mu),
            3 := 0.125*(1-xi)*(1+eta)*(1-mu),
            4 := 0.125*(1-xi)*(1-eta)*(1+mu),
            5 := 0.125*(1+xi)*(1-eta)*(1+mu),
            6 := 0.125*(1+xi)*(1+eta)*(1+mu),
            7 := 0.125*(1-xi)*(1+eta)*(1+mu)]))
      else if nNodes = 20 then
        (if length out_shape < 20 then Inl OutOfBounds
         else Inr ((foldl (hex20_corner xi eta mu) out_shape [0..<8])
           [8 := 0.25*(1-xi*xi)*(1-eta)*(1-mu),
            10 := 0.25*(1-xi*xi)*(1+eta)*(1-mu),
            16 := 0.25*(1-xi*xi)*(1-eta)*(1+mu),
            18 := 0.25*(1-xi*xi)*(1+eta)*(1+mu),
            9 := 0.25*(1-eta*eta)*(1+xi)*(1-mu),
            11 := 0.25*(1-eta*eta)*(1-xi)*(1-mu),
            17 := 0.25*(1-eta*eta)*(1+xi)*(1+mu),
            19 := 0.25*(1-eta*eta)*(1-xi)*(1+mu),
            12 := 0.25*(1-mu*mu)*(1-xi)*(1-eta),
            13 := 0.25*(1-mu*mu)*(1+xi)*(1-eta),
            14 := 0.25*(1-mu*mu)*(1+xi)*(1+eta),
            15 := 0.25*(1-mu*mu)*(1-xi)*(1+eta)]))
      else Inr out_shape)"

definition shape_hex :: "point \<Rightarrow> real list \<Rightarrow> int \<Rightarrow> error + real list" where
  "shape_hex in_rst out_shape nNodes =
     (case resize out_shape nNodes of
        Inl e \<Rightarrow> Inl e
      | Inr v \<Rightarrow> shape_hex_ptr in_rst v nNodes)"

subsection \<open>Triangles and tetrahedra\<close>

definition shape_tri_ptr :: "point \<Rightarrow> real list \<Rightarrow> error + real list" where
  "shape_tri_ptr in_rs out_shape =
     (if length out_shape < 3 then Inl OutOfBounds
      else Inr (out_shape
        [0 := x in_rs,
         1 := y in_rs,
         2 := 1 - x in_rs - y in_rs]))"

text \<open>The vector overload of the triangle writes its three entries itself.\<close>

definition shape_tri :: "point \<Rightarrow> real list \<Rightarrow> error + real list" where
  "shape_tri in_rs out_shape =
     (case resize out_shape 3 of
        Inl e \<Rightarrow> Inl e
      | Inr v \<Rightarrow> Inr (v
        [0 := x in_rs,
         1 := y in_rs,
         2 := 1 - x in_rs - y in_rs]))"

definition shape_tet_ptr :: "point \<Rightarrow> real list \<Rightarrow> error + real list" where
  "shape_tet_ptr in_rs out_shape =
     (if length out_shape < 4 then Inl OutOfBounds
      else Inr (out_shape
        [0 := x in_rs,
         1 := y in_rs,
         2 := z in_rs,
         3 := 1 - x in_rs - y in_rs - z in_rs]))"

definition shape_tet :: "point \<Rightarrow> real list \<Rightarrow> error + real list" where
  "shape_tet in_rs out_shape =
     (case resize out_shape 4 of
        Inl e \<Rightarrow> Inl e
      | Inr v \<Rightarrow> shape_tet_ptr in_rs v)"

text \<open>
  Interpolation of nodal values with the shape-function weights: the weighted sum
  \<open>\<Sum>i. w\<^sub>i * u\<^sub>i\<close> over the nodes of the element.
\<close>

definition interpolate :: "real list \<Rightarrow> real list \<Rightarrow> real" where
  "interpolate w u = sum_list (map (\<lambda>(a, b). a * b) (zip w u))"

section \<open>Blanking codes (geo.hpp)\<close>

text \<open>The three macros \<^verbatim>\<open>#define NORMAL 1\<close>, \<^verbatim>\<open>#define HOLE 0\<close>, \<^verbatim>\<open>#define FRINGE -1\<close>,
  stored in the \<^verbatim>\<open>vector<int>\<close> fields \<^verbatim>\<open>iblank\<close>, \<^verbatim>\<open>iblankCell\<close>, \<^verbatim>\<open>iblankFace\<close>.\<close>

definition NORMAL :: int where
  "NORMAL = 1"

definition HOLE :: int where
  "HOLE = 0"

definition FRINGE :: int where
  "FRINGE = -1"

section \<open>Doubles\<close>

text \<open>
  \<^verbatim>\<open>getOrder\<close> and \<^verbatim>\<open>solver::calcDt\<close> only compare doubles, so a double is one of:
  not-a-number, minus infinity, a finite value (read as the real it denotes), plus
  infinity.  \<open>dless\<close> is the comparison \<^verbatim>\<open><\<close> of the language, false whenever an operand
  is NaN, and \<open>dle\<close> is \<^verbatim>\<open><=\<close>.
\<close>

datatype double = NaN | MInf | Fin real | PInf

fun dless :: "double \<Rightarrow> double \<Rightarrow> bool" where
  "dless NaN b = False"
| "dless a NaN = False"
| "dless MInf MInf = False"
| "dless MInf b = True"
| "dless (Fin a) (Fin b) = (a < b)"
| "dless (Fin a) PInf = True"
| "dless (Fin a) MInf = False"
| "dless PInf b = False"

definition dle :: "double \<Rightarrow> double \<Rightarrow> bool" where
  "dle a b = (a \<noteq> NaN \<and> b \<noteq> NaN \<and> \<not> dless b a)"

section \<open>Sorting permutation (funcs.cpp)\<close>

text \<open>
  \<^verbatim>\<open>operator<\<close> of \<^verbatim>\<open>std::pair<double,size_t>\<close>, by which \<^verbatim>\<open>std::sort\<close> compares the
  elements of \<^verbatim>\<open>vp\<close>: the first components decide, and the second ones when neither
  first component is less than the other.
\<close>

definition pair_less :: "double \<times> nat \<Rightarrow> double \<times> nat \<Rightarrow> bool" where
  "pair_less p q = (dless (fst p) (fst q) \<or> (\<not> dless (fst q) (fst p) \<and> snd p < snd q))"

text \<open>
  \<^verbatim>\<open>std::sort(vp.begin(), vp.end())\<close>.  Without NaN the comparison is a strict linear
  order of the pairs, which are pairwise different, so every sorting algorithm returns the
  one ascending arrangement.  The model inserts the elements one after the other into
  the sorted part, each before the first element it is less than.  With a NaN among the
  data the comparison is no ordering, and the model then says what this insertion does.
\<close>

fun insert_before :: "('a \<Rightarrow> 'a \<Rightarrow> bool) \<Rightarrow> 'a \<Rightarrow> 'a list \<Rightarrow> 'a list" where
  "insert_before lt v [] = [v]"
| "insert_before lt v (u # us) =
     (if lt v u then v # u # us else u # insert_before lt v us)"

definition std_sort :: "('a \<Rightarrow> 'a \<Rightarrow> bool) \<Rightarrow> 'a list \<Rightarrow> 'a list" where
  "std_sort lt xs = foldl (\<lambda>front v. insert_before lt v front) [] xs"

text \<open>
  The index \<^verbatim>\<open>vp[i].second\<close> is a \<^verbatim>\<open>size_t\<close> stored into an \<^verbatim>\<open>int\<close>:
  \<open>int_of_size_t\<close> is that narrowing conversion.
\<close>

definition int_of_size_t :: "nat \<Rightarrow> int" where
  "int_of_size_t i = (int i + 2 ^ 31) mod 2 ^ 32 - 2 ^ 31"

text \<open>
  \<^verbatim>\<open>getOrder\<close> pairs every entry with its index, sorts the pairs and returns the indices
  in the sorted order.
\<close>

definition getOrder :: "double list \<Rightarrow> int list" where
  "getOrder data =
     (let vp = map (\<lambda>i. (data ! i, i)) [0..<length data];
          vp = std_sort pair_less vp
      in map (\<lambda>i. int_of_size_t (snd (vp ! i))) [0..<length vp])"

text \<open>The sorted vector of pairs inside \<open>getOrder\<close>, named for the proofs.\<close>

definition sorted_pairs :: "double list \<Rightarrow> (double \<times> nat) list" where
  "sorted_pairs data = std_sort pair_less (map (\<lambda>i. (data ! i, i)) [0..<length data])"

section \<open>Time step (solver.cpp)\<close>







section \<open>Gather over an intra-grid scope (overComm.hpp)\<close>

text \<open>
  Modelled from the spec: the body of the template \<^verbatim>\<open>overComm::gatherData\<close>, which
  overComm.hpp only declares.  The spec's contract (TypedGather) is a variable-length
  all-gather-then-merge over the ranks of one grid:
  \<^verbatim>\<open>gather(nLocal, stride, localValues, intraGridScope) -> (perRankCounts, mergedValues)\<close>,
  merged by ascending rank and then by local order, for integer and floating-point
  elements alike.  The scope is the list of the ranks' arguments in rank order, each a
  pair of \<^verbatim>\<open>nPieces\<close> and the values the pointer \<^verbatim>\<open>values\<close> addresses, of which
  \<open>nPieces * stride\<close> are sent.  The result is the pair of \<^verbatim>\<open>nPieces_rank\<close> and
  \<^verbatim>\<open>values_all\<close>; a buffer shorter than announced would be read past its end.
\<close>

definition gatherData :: "nat \<Rightarrow> (nat \<times> 'a list) list \<Rightarrow> error + (nat list \<times> 'a list)" where
  "gatherData stride locals =
     (if list_ex (\<lambda>(nPieces, vals). length vals < nPieces * stride) locals then Inl OutOfBounds
      else Inr (map fst locals,
                concat (map (\<lambda>(nPieces, vals). take (nPieces * stride) vals) locals)))"

text \<open>
  Modelled from the spec: the position in the merged output of \<^verbatim>\<open>gatherData\<close> where the
  block of rank \<open>r\<close> starts, which is the number of values that the ranks below \<open>r\<close>
  contribute.
\<close>

definition displacement :: "nat \<Rightarrow> (nat \<times> 'a list) list \<Rightarrow> nat \<Rightarrow> nat" where
  "displacement stride locals r = sum_list (map (\<lambda>(nPieces, vals). nPieces * stride) (take r locals))"

section \<open>Overset exchange (overComm.hpp)\<close>

text \<open>
  The state of one process for exchanging data at overset faces, with the fields that
  \<^verbatim>\<open>class overComm\<close> declares and the operations below use.  Counts and IDs are natural
  numbers, a \<^verbatim>\<open>matrix<double>\<close> is a list of rows.  The index \<open>g\<close> of \<open>foundPts\<close>,
  \<open>nPtsSend\<close>, \<open>nPtsRecv\<close>, \<open>recvPts\<close> and \<open>U_out\<close> is a grid ID.
\<close>

record overComm =
  nFields :: nat
  foundPts :: "nat list list"
  foundEles :: "nat list list"
  foundLocs :: "point list list"
  nOverPts :: nat
  nPtsRecv :: "nat list"
  nPtsSend :: "nat list"
  recvPts :: "nat list list"
  U_in :: "real list list"
  U_out :: "real list list list"

text \<open>
  Modelled from the spec: the state that the spec's ExchangeChannel keeps beyond the
  fields of the header, which declares none of it.  \<open>planStale\<close> records that a
  reconnection event has happened and the send/receive plan has not been refreshed since
  (stale-plan use must be rejected); \<open>nOrphans\<close> is the orphan count by which the solver
  is informed of unmatched receptor points.
\<close>

record exchangeChannel = overComm +
  planStale :: bool
  nOrphans :: nat

text \<open>
  Modelled from the spec: the fatal conditions of an exchange, reported with the point ID
  where one is at fault.  They are the only ways in which an exchange does not complete.
\<close>

datatype exchange_error = StalePlan | BadPointId nat | MismatchedBuffers

text \<open>
  Modelled from the spec: what the donor search inside \<^verbatim>\<open>matchOversetPoints\<close> reports
  for a matched point: receptor point ID, donor element ID, and the reference-space
  location of the point within that element.
\<close>

type_synonym match = "nat \<times> nat \<times> point"

text \<open>
  Modelled from the spec: reading the list that a per-grid vector of \<^verbatim>\<open>overComm\<close> keeps
  for grid \<open>g\<close>, as the absent member functions do; a vector with no entry for \<open>g\<close> holds
  nothing for it.
\<close>

definition entry :: "'a list list \<Rightarrow> nat \<Rightarrow> 'a list" where
  "entry xss g = (if g < length xss then xss ! g else [])"

text \<open>
  Modelled from the spec: the body of \<^verbatim>\<open>overComm::matchOversetPoints\<close>, which the header
  only declares (the spec's \<^verbatim>\<open>matchPoints\<close> of DonorSearchProtocol).  The processes of an
  inter-grid scope are the list \<open>w\<close>, one per grid, the position being the grid ID.  The
  geometric search itself is a parameter: \<open>search A g\<close> are the matches that grid \<open>A\<close> finds
  among the receptor points of another grid \<open>g\<close>.  A reconnection event replaces the whole
  donor record (\<open>foundPts\<close>, \<open>foundEles\<close>, \<open>foundLocs\<close>, of equal lengths per grid) and
  thereby makes the current plan stale.
\<close>

definition matchOversetPoints ::
  "(nat \<Rightarrow> nat \<Rightarrow> match list) \<Rightarrow> exchangeChannel list \<Rightarrow> exchangeChannel list" where
  "matchOversetPoints search w =
     map (\<lambda>A. let found = map (\<lambda>g. if g = A then [] else search A g) [0..<length w]
              in (w ! A)\<lparr>foundPts := map (map fst) found,
                         foundEles := map (map (\<lambda>m. fst (snd m))) found,
                         foundLocs := map (map (\<lambda>m. snd (snd m))) found,
                         planStale := True\<rparr>)
         [0..<length w]"

text \<open>
  Modelled from the spec: the unmatched (orphan) points of a grid with \<open>nPts\<close> receptor
  points: those that the ID lists received from the other grids do not mention.
\<close>

definition orphanPts :: "nat \<Rightarrow> nat list list \<Rightarrow> nat list" where
  "orphanPts nPts recv = filter (\<lambda>p. \<not> list_ex (\<lambda>ps. p \<in> set ps) recv) [0..<nPts]"

text \<open>
  Modelled from the spec: reallocation of \<open>U_in\<close> to one row per receptor point when the
  plan changes.  Rows that exist keep their last values; a new row holds the fallback
  value 0 in every field.
\<close>

definition reallocate :: "nat \<Rightarrow> nat \<Rightarrow> real list list \<Rightarrow> real list list" where
  "reallocate nRows nCols U = take nRows U @ replicate (nRows - length U) (replicate nCols 0)"

text \<open>
  Modelled from the spec: \<^verbatim>\<open>refreshPlan()\<close> of ExchangeChannel, for which the header has no
  separate declaration.  After a donor search every grid counts the points it found for each
  other grid (\<open>nPtsSend\<close>), the counts and the ID lists are exchanged over the inter-grid
  scope (\<open>nPtsRecv\<close>, \<open>recvPts\<close>: what grid \<open>X\<close> receives from grid \<open>A\<close> is what \<open>A\<close> found
  for \<open>X\<close>), the buffers are reallocated, the orphans are counted, and the plan is fresh.
\<close>

definition refreshPlan :: "exchangeChannel list \<Rightarrow> exchangeChannel list" where
  "refreshPlan w =
     map (\<lambda>X. let c = w ! X;
                  send = map length (foundPts c);
                  recv = map (\<lambda>A. entry (foundPts (w ! A)) X) [0..<length w]
              in c\<lparr>nPtsSend := send,
                   nPtsRecv := map length recv,
                   recvPts := recv,
                   U_in := reallocate (nOverPts c) (nFields c) (U_in c),
                   U_out := map (\<lambda>k. replicate k (replicate (nFields c) 0)) send,
                   planStale := False,
                   nOrphans := length (orphanPts (nOverPts c) recv)\<rparr>)
         [0..<length w]"

text \<open>
  Modelled from the spec: unpacking the values received from one grid into \<open>U_in\<close>, the
  \<open>i\<close>-th value going to the row of the \<open>i\<close>-th ID of \<open>recvPts\<close>.  An ID outside \<open>U_in\<close> and
  a buffer whose length differs from the ID list are fatal.
\<close>

fun unpack :: "nat list \<Rightarrow> real list list \<Rightarrow> real list list \<Rightarrow> exchange_error + real list list" where
  "unpack [] [] U = Inr U"
| "unpack (p # ps) (v # vs) U =
     (if p < length U then unpack ps vs (U[p := v]) else Inl (BadPointId p))"
| "unpack ps vs U = Inl MismatchedBuffers"

text \<open>Modelled from the spec: unpacking the buffers of all grids in turn.\<close>

fun unpackAll ::
  "nat list list \<Rightarrow> real list list list \<Rightarrow> real list list \<Rightarrow> exchange_error + real list list" where
  "unpackAll [] [] U = Inr U"
| "unpackAll (ps # pss) (vs # vss) U =
     (case unpack ps vs U of Inl e \<Rightarrow> Inl e | Inr U' \<Rightarrow> unpackAll pss vss U')"
| "unpackAll pss vss U = Inl MismatchedBuffers"

text \<open>
  Modelled from the spec: packing \<open>U_out\<close>.  For each destination grid \<open>g\<close> the field is
  interpolated at every matched donor element and reference location, in the order of the
  found lists, which is the order of the receiver's \<open>recvPts\<close>.  The interpolation is the
  solver's capability and a parameter: element ID and location give one value per field.
\<close>

definition pack :: "(nat \<Rightarrow> point \<Rightarrow> real list) \<Rightarrow> exchangeChannel \<Rightarrow> real list list list" where
  "pack interp c =
     map (\<lambda>g. map (\<lambda>(e, loc). interp e loc) (zip (entry (foundEles c) g) (entry (foundLocs c) g)))
         [0..<length (nPtsSend c)]"

text \<open>
  Modelled from the spec: the outcome of the collective \<^verbatim>\<open>exchangeOversetData\<close> over all
  processes of the scope: the first fatal condition, or the new state of every process.
\<close>

fun collect :: "('e + 'a) list \<Rightarrow> 'e + 'a list" where
  "collect [] = Inr []"
| "collect (Inl e # rs) = Inl e"
| "collect (Inr a # rs) = (case collect rs of Inl e \<Rightarrow> Inl e | Inr as \<Rightarrow> Inr (a # as))"

text \<open>Modelled from the spec: the packing phase of an exchange on every grid.\<close>

definition sendBuffers ::
  "(nat \<Rightarrow> nat \<Rightarrow> point \<Rightarrow> real list) \<Rightarrow> exchangeChannel list \<Rightarrow> exchangeChannel list" where
  "sendBuffers interp w = map (\<lambda>A. (w ! A)\<lparr>U_out := pack (interp A) (w ! A)\<rparr>) [0..<length w]"

text \<open>
  Modelled from the spec: the transport and unpacking phase on grid \<open>X\<close>.  What \<open>X\<close>
  receives from grid \<open>A\<close> is the buffer \<open>U_out\<close> that \<open>A\<close> packed for \<open>X\<close>.
\<close>

definition receive :: "exchangeChannel list \<Rightarrow> nat \<Rightarrow> exchange_error + exchangeChannel" where
  "receive sent X =
     (let c = sent ! X;
          incoming = map (\<lambda>A. entry (U_out (sent ! A)) X) [0..<length sent]
      in case unpackAll (recvPts c) incoming (U_in c) of
           Inl e \<Rightarrow> Inl e
         | Inr U \<Rightarrow> Inr (c\<lparr>U_in := U\<rparr>))"

text \<open>
  Modelled from the spec: the body of \<^verbatim>\<open>overComm::exchangeOversetData\<close>, which the header
  only declares (the spec's \<^verbatim>\<open>exchange\<close> of ExchangeChannel).  An exchange against a stale
  plan is rejected before anything is packed or sent; otherwise packing precedes transport,
  which precedes unpacking.
\<close>

definition exchangeOversetData ::
  "(nat \<Rightarrow> nat \<Rightarrow> point \<Rightarrow> real list) \<Rightarrow> exchangeChannel list \<Rightarrow> exchange_error + exchangeChannel list" where
  "exchangeOversetData interp w =
     (if list_ex planStale w then Inl StalePlan
      else let sent = sendBuffers interp w
           in collect (map (receive sent) [0..<length sent]))"

text \<open>
  Modelled from the spec: the calls by which the solver drives the absent member functions
  of \<^verbatim>\<open>overComm\<close>: a reconnection event (with the outcome of its donor search), a plan
  refresh, an exchange (with the solver's interpolation).
\<close>

datatype event =
  Reconnect "nat \<Rightarrow> nat \<Rightarrow> match list"
| Refresh
| Exchange "nat \<Rightarrow> nat \<Rightarrow> point \<Rightarrow> real list"

text \<open>Modelled from the spec: serving one request with the operations above.\<close>

fun step :: "event \<Rightarrow> exchangeChannel list \<Rightarrow> exchange_error + exchangeChannel list" where
  "step (Reconnect search) w = Inr (matchOversetPoints search w)"
| "step Refresh w = Inr (refreshPlan w)"
| "step (Exchange interp) w = exchangeOversetData interp w"

text \<open>Modelled from the spec: serving a sequence of requests, stopping at the first fatal
  condition.\<close>

fun run :: "event list \<Rightarrow> exchangeChannel list \<Rightarrow> exchange_error + exchangeChannel list" where
  "run [] w = Inr w"
| "run (ev # evs) w = (case step ev w of Inl e \<Rightarrow> Inl e | Inr w' \<Rightarrow> run evs w')"

text \<open>
  Modelled from the spec: stale-plan use, on the sequence of requests.  The sequence leaves
  a reconnection event without a plan refresh after it; \<open>b\<close> tells whether one was left
  before the sequence.
\<close>

fun refreshPending :: "bool \<Rightarrow> event list \<Rightarrow> bool" where
  "refreshPending b [] = b"
| "refreshPending b (Reconnect search # evs) = refreshPending True evs"
| "refreshPending b (Refresh # evs) = refreshPending False evs"
| "refreshPending b (Exchange interp # evs) = refreshPending b evs"

section \<open>Properties of the shape functions\<close>

lemma upt_0_8: "[0..<8] = [0,1,2,3,4,5,6,7]"
  by (simp add: upt_rec)

lemma length_3_conv: "length v = 3 \<Longrightarrow> \<exists>a b c. v = [a, b, c]"
  by (auto simp add: eval_nat_numeral length_Suc_conv)

lemma length_4_conv: "length v = 4 \<Longrightarrow> \<exists>a b c d. v = [a, b, c, d]"
  by (auto simp add: eval_nat_numeral length_Suc_conv)

lemma length_8_conv: "length v = 8 \<Longrightarrow> \<exists>a b c d e f g h. v = [a, b, c, d, e, f, g, h]"
  by (auto simp add: eval_nat_numeral length_Suc_conv)

lemma length_20_conv:
  "length v = 20 \<Longrightarrow>
   \<exists>a0 a1 a2 a3 a4 a5 a6 a7 a8 a9 b0 b1 b2 b3 b4 b5 b6 b7 b8 b9.
     v = [a0,a1,a2,a3,a4,a5,a6,a7,a8,a9,b0,b1,b2,b3,b4,b5,b6,b7,b8,b9]"
  by (auto simp add: eval_nat_numeral length_Suc_conv)

subsection \<open>Resizing\<close>

lemma max_size_val: "max_size = 1152921504606846975"
  by (simp add: max_size_def)

lemma size_type_nonneg: "0 \<le> n \<Longrightarrow> n < 2 ^ 31 \<Longrightarrow> size_type_of_int n = nat n"
proof -
  assume a: "0 \<le> n" "n < 2 ^ 31"
  have "n < 2 ^ 64" using a by simp
  then have "n mod 2 ^ 64 = n" using a by (simp add: mod_pos_pos_trivial)
  then show ?thesis by (simp add: size_type_of_int_def)
qed

lemma size_type_negative: "n < 0 \<Longrightarrow> - (2 ^ 31) \<le> n \<Longrightarrow> size_type_of_int n = nat (n + 2 ^ 64)"
proof -
  assume a: "n < 0" "- (2 ^ 31) \<le> n"
  have "(n + 2 ^ 64) mod 2 ^ 64 = n + 2 ^ 64"
    using a by (intro mod_pos_pos_trivial) simp_all
  then have "n mod 2 ^ 64 = n + 2 ^ 64" by simp
  then show ?thesis by (simp add: size_type_of_int_def)
qed

lemma resize_nonneg:
  assumes "0 \<le> n" "n < 2 ^ 31"
  shows "resize v n = Inr (take (nat n) v @ replicate (nat n - length v) 0)"
proof -
  have "nat n < 2 ^ 31" using assms by simp
  then have "\<not> max_size < nat n" unfolding max_size_val by simp
  then show ?thesis
    by (simp add: resize_def Let_def size_type_nonneg[OF assms])
qed

lemma resize_negative:
  assumes "n < 0" "- (2 ^ 31) \<le> n"
  shows "resize v n = Inl LengthError"
proof -
  have "2 ^ 63 \<le> n + 2 ^ 64" using assms by simp
  then have "nat (2 ^ 63) \<le> nat (n + 2 ^ 64)" by (rule nat_mono)
  then have "max_size < nat (n + 2 ^ 64)" unfolding max_size_val by simp
  then show ?thesis
    by (simp add: resize_def Let_def size_type_negative[OF assms])
qed


subsection \<open>The weights written by each case\<close>

lemma quad4_prefix:
  assumes "length pre = 4"
  shows "\<exists>w. shape_quad_ptr p (pre @ rest) 4 = Inr (w @ rest) \<and> length w = 4 \<and> sum_list w = 1"
proof -
  obtain a b c d where pre: "pre = [a, b, c, d]"
    using length_4_conv[OF assms] by blast
  show ?thesis
    unfolding pre
    apply (simp add: shape_quad_ptr_def Let_def)
    apply (simp add: field_simps)
    done
qed

lemma quad8_prefix:
  assumes "length pre = 8"
  shows "\<exists>w. shape_quad_ptr p (pre @ rest) 8 = Inr (w @ rest) \<and> length w = 8 \<and> sum_list w = 1"
proof -
  obtain a b c d e f g h where pre: "pre = [a, b, c, d, e, f, g, h]"
    using length_8_conv[OF assms] by blast
  show ?thesis
    unfolding pre
    apply (simp add: shape_quad_ptr_def Let_def)
    apply (simp add: field_simps)
    done
qed

lemma hex8_prefix:
  assumes "length pre = 8"
  shows "\<exists>w. shape_hex_ptr p (pre @ rest) 8 = Inr (w @ rest) \<and> length w = 8 \<and> sum_list w = 1"
proof -
  obtain a b c d e f g h where pre: "pre = [a, b, c, d, e, f, g, h]"
    using length_8_conv[OF assms] by blast
  show ?thesis
    unfolding pre
    apply (simp add: shape_hex_ptr_def Let_def)
    apply (simp add: field_simps)
    done
qed

lemma hex20_prefix:
  assumes "length pre = 20"
  shows "\<exists>w. shape_hex_ptr p (pre @ rest) 20 = Inr (w @ rest) \<and> length w = 20 \<and> sum_list w = 1"
proof -
  obtain a0 a1 a2 a3 a4 a5 a6 a7 a8 a9 b0 b1 b2 b3 b4 b5 b6 b7 b8 b9
    where pre: "pre = [a0,a1,a2,a3,a4,a5,a6,a7,a8,a9,b0,b1,b2,b3,b4,b5,b6,b7,b8,b9]"
    using length_20_conv[OF assms] by (elim exE)
  show ?thesis
    unfolding pre
    apply (simp add: shape_hex_ptr_def Let_def upt_0_8 hex20_corner_def XI_def ETA_def MU_def)
    apply (simp add: field_simps)
    done
qed

lemma tri_prefix:
  assumes "length pre = 3"
  shows "\<exists>w. shape_tri_ptr p (pre @ rest) = Inr (w @ rest) \<and> length w = 3 \<and> sum_list w = 1"
proof -
  obtain a b c where pre: "pre = [a, b, c]"
    using length_3_conv[OF assms] by blast
  show ?thesis
    unfolding pre by (simp add: shape_tri_ptr_def)
qed

lemma tet_prefix:
  assumes "length pre = 4"
  shows "\<exists>w. shape_tet_ptr p (pre @ rest) = Inr (w @ rest) \<and> length w = 4 \<and> sum_list w = 1"
proof -
  obtain a b c d where pre: "pre = [a, b, c, d]"
    using length_4_conv[OF assms] by blast
  show ?thesis
    unfolding pre by (simp add: shape_tet_ptr_def)
qed

subsection \<open>Partition of unity\<close>

lemma interpolate_constant: "interpolate w (replicate (length w) c) = sum_list w * c"
  unfolding interpolate_def
  by (induction w) (simp_all add: algebra_simps)

lemma resize_length:
  assumes "0 \<le> n" "n < 2 ^ 31"
  shows "\<exists>w. resize v n = Inr w \<and> length w = nat n"
  using resize_nonneg[OF assms, of v] by auto

lemma quad_vec_unity:
  assumes "nNodes = 4 \<or> nNodes = 8"
  shows "\<exists>w. shape_quad in_rs out_shape nNodes = Inr w \<and> length w = nat nNodes \<and> sum_list w = 1"
proof -
  have rng: "0 \<le> nNodes" "nNodes < 2 ^ 31" using assms by auto
  obtain v where v: "resize out_shape nNodes = Inr v" "length v = nat nNodes"
    using resize_length[OF rng] by blast
  from assms show ?thesis
  proof
    assume n: "nNodes = 4"
    then have "length v = 4" using v by simp
    from quad4_prefix[OF this, of in_rs "[]"] show ?thesis
      using v by (auto simp add: shape_quad_def n)
  next
    assume n: "nNodes = 8"
    then have "length v = 8" using v by simp
    from quad8_prefix[OF this, of in_rs "[]"] show ?thesis
      using v by (auto simp add: shape_quad_def n)
  qed
qed

lemma hex_vec_unity:
  assumes "nNodes = 8 \<or> nNodes = 20"
  shows "\<exists>w. shape_hex in_rst out_shape nNodes = Inr w \<and> length w = nat nNodes \<and> sum_list w = 1"
proof -
  have rng: "0 \<le> nNodes" "nNodes < 2 ^ 31" using assms by auto
  obtain v where v: "resize out_shape nNodes = Inr v" "length v = nat nNodes"
    using resize_length[OF rng] by blast
  from assms show ?thesis
  proof
    assume n: "nNodes = 8"
    then have "length v = 8" using v by simp
    from hex8_prefix[OF this, of in_rst "[]"] show ?thesis
      using v by (auto simp add: shape_hex_def n)
  next
    assume n: "nNodes = 20"
    then have "length v = 20" using v by simp
    from hex20_prefix[OF this, of in_rst "[]"] show ?thesis
      using v by (auto simp add: shape_hex_def n)
  qed
qed

lemma tri_vec_unity:
  "\<exists>w. shape_tri in_rs out_shape = Inr w \<and> length w = 3 \<and> sum_list w = 1"
proof -
  obtain v where v: "resize out_shape 3 = Inr v" "length v = 3"
    using resize_length[of 3 out_shape] by auto
  obtain a b c where "v = [a, b, c]"
    using length_3_conv[OF v(2)] by blast
  then show ?thesis
    by (simp add: shape_tri_def v)
qed

lemma tet_vec_unity:
  "\<exists>w. shape_tet in_rs out_shape = Inr w \<and> length w = 4 \<and> sum_list w = 1"
proof -
  obtain v where v: "resize out_shape 4 = Inr v" "length v = 4"
    using resize_length[of 4 out_shape] by auto
  from tet_prefix[OF v(2), of in_rs "[]"] show ?thesis
    by (auto simp add: shape_tet_def v)
qed

lemma split_buffer:
  assumes "n \<le> length buf"
  shows "buf = take n buf @ drop n buf" "length (take n buf) = n"
  using assms by simp_all

lemma quad_ptr_unity:
  assumes "nNodes = 4 \<or> nNodes = 8" "nat nNodes \<le> length out_shape"
  shows "\<exists>w. shape_quad_ptr in_rs out_shape nNodes = Inr w \<and>
             sum_list (take (nat nNodes) w) = 1 \<and>
             drop (nat nNodes) w = drop (nat nNodes) out_shape"
proof -
  note sp = split_buffer[OF assms(2)]
  from assms(1) show ?thesis
  proof
    assume n: "nNodes = 4"
    from quad4_prefix[of "take 4 out_shape" in_rs "drop 4 out_shape"] sp show ?thesis
      by (auto simp add: n)
  next
    assume n: "nNodes = 8"
    from quad8_prefix[of "take 8 out_shape" in_rs "drop 8 out_shape"] sp show ?thesis
      by (auto simp add: n)
  qed
qed

lemma hex_ptr_unity:
  assumes "nNodes = 8 \<or> nNodes = 20" "nat nNodes \<le> length out_shape"
  shows "\<exists>w. shape_hex_ptr in_rst out_shape nNodes = Inr w \<and>
             sum_list (take (nat nNodes) w) = 1 \<and>
             drop (nat nNodes) w = drop (nat nNodes) out_shape"
proof -
  note sp = split_buffer[OF assms(2)]
  from assms(1) show ?thesis
  proof
    assume n: "nNodes = 8"
    from hex8_prefix[of "take 8 out_shape" in_rst "drop 8 out_shape"] sp show ?thesis
      by (auto simp add: n)
  next
    assume n: "nNodes = 20"
    from hex20_prefix[of "take 20 out_shape" in_rst "drop 20 out_shape"] sp show ?thesis
      by (auto simp add: n)
  qed
qed

lemma tri_ptr_unity:
  assumes "3 \<le> length out_shape"
  shows "\<exists>w. shape_tri_ptr in_rs out_shape = Inr w \<and>
             sum_list (take 3 w) = 1 \<and> drop 3 w = drop 3 out_shape"
  using tri_prefix[of "take 3 out_shape" in_rs "drop 3 out_shape"] split_buffer[OF assms]
  by auto

lemma tet_ptr_unity:
  assumes "4 \<le> length out_shape"
  shows "\<exists>w. shape_tet_ptr in_rs out_shape = Inr w \<and>
             sum_list (take 4 w) = 1 \<and> drop 4 w = drop 4 out_shape"
  using tet_prefix[of "take 4 out_shape" in_rs "drop 4 out_shape"] split_buffer[OF assms]
  by auto


text \<open>
  Claim C9.  At every reference-space point the shape-function weights sum to one, as an
  identity between polynomials in the reference coordinates: for \<open>shape_quad\<close> with 4 or 8
  nodes, \<open>shape_hex\<close> with 8 or 20 nodes, \<open>shape_tri\<close> and \<open>shape_tet\<close>.  The vector
  overloads return exactly \<open>nNodes\<close> weights; the pointer overloads write the weights to
  the front of a buffer that is long enough and leave the rest of it alone.  Hence
  interpolating a constant nodal field \<open>c\<close> gives \<open>c\<close> back.
\<close>

theorem shape_partition_of_unity:
  fixes in_rs :: point and out_shape :: "real list" and nNodes :: int and c :: real
  shows
    "(nNodes = 4 \<or> nNodes = 8 \<longrightarrow>
        (\<exists>w. shape_quad in_rs out_shape nNodes = Inr w \<and> length w = nat nNodes \<and>
             sum_list w = 1 \<and> interpolate w (replicate (length w) c) = c)) \<and>
     (nNodes = 8 \<or> nNodes = 20 \<longrightarrow>
        (\<exists>w. shape_hex in_rs out_shape nNodes = Inr w \<and> length w = nat nNodes \<and>
             sum_list w = 1 \<and> interpolate w (replicate (length w) c) = c)) \<and>
     (\<exists>w. shape_tri in_rs out_shape = Inr w \<and> length w = 3 \<and>
          sum_list w = 1 \<and> interpolate w (replicate (length w) c) = c) \<and>
     (\<exists>w. shape_tet in_rs out_shape = Inr w \<and> length w = 4 \<and>
          sum_list w = 1 \<and> interpolate w (replicate (length w) c) = c) \<and>
     ((nNodes = 4 \<or> nNodes = 8) \<and> nat nNodes \<le> length out_shape \<longrightarrow>
        (\<exists>w. shape_quad_ptr in_rs out_shape nNodes = Inr w \<and>
             sum_list (take (nat nNodes) w) = 1 \<and>
             drop (nat nNodes) w = drop (nat nNodes) out_shape)) \<and>
     ((nNodes = 8 \<or> nNodes = 20) \<and> nat nNodes \<le> length out_shape \<longrightarrow>
        (\<exists>w. shape_hex_ptr in_rs out_shape nNodes = Inr w \<and>
             sum_list (take (nat nNodes) w) = 1 \<and>
             drop (nat nNodes) w = drop (nat nNodes) out_shape)) \<and>
     (3 \<le> length out_shape \<longrightarrow>
        (\<exists>w. shape_tri_ptr in_rs out_shape = Inr w \<and>
             sum_list (take 3 w) = 1 \<and> drop 3 w = drop 3 out_shape)) \<and>
     (4 \<le> length out_shape \<longrightarrow>
        (\<exists>w. shape_tet_ptr in_rs out_shape = Inr w \<and>
             sum_list (take 4 w) = 1 \<and> drop 4 w = drop 4 out_shape))"
proof (intro conjI impI)
  assume "nNodes = 4 \<or> nNodes = 8"
  from quad_vec_unity[OF this, of in_rs out_shape]
  show "\<exists>w. shape_quad in_rs out_shape nNodes = Inr w \<and> length w = nat nNodes \<and>
             sum_list w = 1 \<and> interpolate w (replicate (length w) c) = c"
    by (auto simp add: interpolate_constant)
next
  assume "nNodes = 8 \<or> nNodes = 20"
  from hex_vec_unity[OF this, of in_rs out_shape]
  show "\<exists>w. shape_hex in_rs out_shape nNodes = Inr w \<and> length w = nat nNodes \<and>
             sum_list w = 1 \<and> interpolate w (replicate (length w) c) = c"
    by (auto simp add: interpolate_constant)
next
  from tri_vec_unity[of in_rs out_shape]
  show "\<exists>w. shape_tri in_rs out_shape = Inr w \<and> length w = 3 \<and>
          sum_list w = 1 \<and> interpolate w (replicate (length w) c) = c"
    by (auto simp add: interpolate_constant)
next
  from tet_vec_unity[of in_rs out_shape]
  show "\<exists>w. shape_tet in_rs out_shape = Inr w \<and> length w = 4 \<and>
          sum_list w = 1 \<and> interpolate w (replicate (length w) c) = c"
    by (auto simp add: interpolate_constant)
next
  assume "(nNodes = 4 \<or> nNodes = 8) \<and> nat nNodes \<le> length out_shape"
  then show "\<exists>w. shape_quad_ptr in_rs out_shape nNodes = Inr w \<and>
             sum_list (take (nat nNodes) w) = 1 \<and>
             drop (nat nNodes) w = drop (nat nNodes) out_shape"
    using quad_ptr_unity[of nNodes out_shape in_rs] by blast
next
  assume "(nNodes = 8 \<or> nNodes = 20) \<and> nat nNodes \<le> length out_shape"
  then show "\<exists>w. shape_hex_ptr in_rs out_shape nNodes = Inr w \<and>
             sum_list (take (nat nNodes) w) = 1 \<and>
             drop (nat nNodes) w = drop (nat nNodes) out_shape"
    using hex_ptr_unity[of nNodes out_shape in_rs] by blast
next
  assume "3 \<le> length out_shape"
  then show "\<exists>w. shape_tri_ptr in_rs out_shape = Inr w \<and>
             sum_list (take 3 w) = 1 \<and> drop 3 w = drop 3 out_shape"
    by (rule tri_ptr_unity)
next
  assume "4 \<le> length out_shape"
  then show "\<exists>w. shape_tet_ptr in_rs out_shape = Inr w \<and>
             sum_list (take 4 w) = 1 \<and> drop 4 w = drop 4 out_shape"
    by (rule tet_ptr_unity)
qed

theorem shape_partition_of_unity_witness:
  "(\<exists>w. shape_quad \<lparr>x = 1/2, y = -1/4, z = 3/4\<rparr> [7, 7, 7, 7, 7, 7, 7, 7, 7] 8 = Inr w \<and>
        length w = 8 \<and> sum_list w = 1 \<and> interpolate w (replicate (length w) 5) = 5) \<and>
   (\<exists>w. shape_hex \<lparr>x = 1/2, y = -1/4, z = 3/4\<rparr> [7, 7, 7, 7, 7, 7, 7, 7, 7] 8 = Inr w \<and>
        length w = 8 \<and> sum_list w = 1 \<and> interpolate w (replicate (length w) 5) = 5) \<and>
   (\<exists>w. shape_quad_ptr \<lparr>x = 1/2, y = -1/4, z = 3/4\<rparr> [7, 7, 7, 7, 7, 7, 7, 7, 7] 8 = Inr w \<and>
        sum_list (take 8 w) = 1 \<and> drop 8 w = [7]) \<and>
   (\<exists>w. shape_hex_ptr \<lparr>x = 1/2, y = -1/4, z = 3/4\<rparr> [7, 7, 7, 7, 7, 7, 7, 7, 7] 8 = Inr w \<and>
        sum_list (take 8 w) = 1 \<and> drop 8 w = [7]) \<and>
   (\<exists>w. shape_tri_ptr \<lparr>x = 1/2, y = -1/4, z = 3/4\<rparr> [7, 7, 7, 7, 7, 7, 7, 7, 7] = Inr w \<and>
        sum_list (take 3 w) = 1 \<and> drop 3 w = [7, 7, 7, 7, 7, 7]) \<and>
   (\<exists>w. shape_tet_ptr \<lparr>x = 1/2, y = -1/4, z = 3/4\<rparr> [7, 7, 7, 7, 7, 7, 7, 7, 7] = Inr w \<and>
        sum_list (take 4 w) = 1 \<and> drop 4 w = [7, 7, 7, 7, 7])"
  using shape_partition_of_unity
    [of 8 "\<lparr>x = 1/2, y = -1/4, z = 3/4\<rparr>" "[7, 7, 7, 7, 7, 7, 7, 7, 7]" 5]
  by simp

subsection \<open>Unsupported node counts\<close>

text \<open>
  Claim C10, as the code has it.  With a node count that no \<^verbatim>\<open>case\<close> of the
  \<^verbatim>\<open>switch\<close> matches, the pointer overloads return the caller's buffer as it was and
  signal nothing.  The vector overloads resize first: for a count between 0 and
  \<^verbatim>\<open>INT_MAX\<close> the vector is cut or padded with zeros to that length and nothing else is
  written; for a negative count the conversion to \<^verbatim>\<open>size_type\<close> asks for more than
  \<open>max_size\<close> elements and \<^verbatim>\<open>resize\<close> throws \<^verbatim>\<open>std::length_error\<close> before the
  \<^verbatim>\<open>switch\<close> is reached.
\<close>

theorem shape_unsupported_node_count:
  fixes in_rs :: point and out_shape :: "real list" and nNodes :: int
  shows
    "(nNodes \<noteq> 4 \<and> nNodes \<noteq> 8 \<longrightarrow> shape_quad_ptr in_rs out_shape nNodes = Inr out_shape) \<and>
     (nNodes \<noteq> 8 \<and> nNodes \<noteq> 20 \<longrightarrow> shape_hex_ptr in_rs out_shape nNodes = Inr out_shape) \<and>
     (nNodes \<noteq> 4 \<and> nNodes \<noteq> 8 \<and> 0 \<le> nNodes \<and> nNodes < 2 ^ 31 \<longrightarrow>
        shape_quad in_rs out_shape nNodes =
          Inr (take (nat nNodes) out_shape @ replicate (nat nNodes - length out_shape) 0)) \<and>
     (nNodes \<noteq> 8 \<and> nNodes \<noteq> 20 \<and> 0 \<le> nNodes \<and> nNodes < 2 ^ 31 \<longrightarrow>
        shape_hex in_rs out_shape nNodes =
          Inr (take (nat nNodes) out_shape @ replicate (nat nNodes - length out_shape) 0)) \<and>
     (nNodes < 0 \<and> - (2 ^ 31) \<le> nNodes \<longrightarrow>
        shape_quad in_rs out_shape nNodes = Inl LengthError \<and>
        shape_hex in_rs out_shape nNodes = Inl LengthError)"
proof (intro conjI impI)
  assume "nNodes \<noteq> 4 \<and> nNodes \<noteq> 8"
  then show "shape_quad_ptr in_rs out_shape nNodes = Inr out_shape"
    by (simp add: shape_quad_ptr_def Let_def)
next
  assume "nNodes \<noteq> 8 \<and> nNodes \<noteq> 20"
  then show "shape_hex_ptr in_rs out_shape nNodes = Inr out_shape"
    by (simp add: shape_hex_ptr_def Let_def)
next
  assume a: "nNodes \<noteq> 4 \<and> nNodes \<noteq> 8 \<and> 0 \<le> nNodes \<and> nNodes < 2 ^ 31"
  then have "resize out_shape nNodes =
      Inr (take (nat nNodes) out_shape @ replicate (nat nNodes - length out_shape) 0)"
    by (simp add: resize_nonneg)
  with a show "shape_quad in_rs out_shape nNodes =
      Inr (take (nat nNodes) out_shape @ replicate (nat nNodes - length out_shape) 0)"
    by (simp add: shape_quad_def shape_quad_ptr_def Let_def)
next
  assume a: "nNodes \<noteq> 8 \<and> nNodes \<noteq> 20 \<and> 0 \<le> nNodes \<and> nNodes < 2 ^ 31"
  then have "resize out_shape nNodes =
      Inr (take (nat nNodes) out_shape @ replicate (nat nNodes - length out_shape) 0)"
    by (simp add: resize_nonneg)
  with a show "shape_hex in_rs out_shape nNodes =
      Inr (take (nat nNodes) out_shape @ replicate (nat nNodes - length out_shape) 0)"
    by (simp add: shape_hex_def shape_hex_ptr_def Let_def)
next
  assume a: "nNodes < 0 \<and> - (2 ^ 31) \<le> nNodes"
  then have "resize out_shape nNodes = Inl LengthError"
    by (simp add: resize_negative)
  then show "shape_quad in_rs out_shape nNodes = Inl LengthError"
    by (simp add: shape_quad_def)
next
  assume a: "nNodes < 0 \<and> - (2 ^ 31) \<le> nNodes"
  then have "resize out_shape nNodes = Inl LengthError"
    by (simp add: resize_negative)
  then show "shape_hex in_rs out_shape nNodes = Inl LengthError"
    by (simp add: shape_hex_def)
qed

theorem shape_unsupported_node_count_witness:
  "shape_quad_ptr \<lparr>x = 0, y = 0, z = 0\<rparr> [1, 2] 5 = Inr [1, 2] \<and>
   shape_hex_ptr \<lparr>x = 0, y = 0, z = 0\<rparr> [1, 2] 5 = Inr [1, 2] \<and>
   shape_quad \<lparr>x = 0, y = 0, z = 0\<rparr> [1, 2] 5 = Inr [1, 2, 0, 0, 0] \<and>
   shape_hex \<lparr>x = 0, y = 0, z = 0\<rparr> [1, 2] 5 = Inr [1, 2, 0, 0, 0] \<and>
   shape_quad \<lparr>x = 0, y = 0, z = 0\<rparr> [1, 2] (- 3) = Inl LengthError \<and>
   shape_hex \<lparr>x = 0, y = 0, z = 0\<rparr> [1, 2] (- 3) = Inl LengthError"
  using shape_unsupported_node_count [of 5 "\<lparr>x = 0, y = 0, z = 0\<rparr>" "[1, 2]"]
    shape_unsupported_node_count [of "- 3" "\<lparr>x = 0, y = 0, z = 0\<rparr>" "[1, 2]"]
  by (simp add: eval_nat_numeral)

text \<open>
  The claim as written promises that no error is signalled for any node count other than
  4 or 8.  The vector overload called with the count \<open>-1\<close> fails in \<^verbatim>\<open>resize\<close>.
\<close>

theorem shape_quad_negative_count_counterexample:
  "(- 1 :: int) \<noteq> 4 \<and> (- 1 :: int) \<noteq> 8 \<and>
   shape_quad \<lparr>x = 0, y = 0, z = 0\<rparr> [] (- 1) = Inl LengthError"
  by (simp add: shape_quad_def resize_def size_type_of_int_def max_size_def Let_def)

section \<open>Properties of the blanking codes\<close>

text \<open>
  Claim C6.  The blanking classification of nodes, cells and faces uses exactly three
  code values: \<open>NORMAL\<close> is 1, \<open>HOLE\<close> is 0 and \<open>FRINGE\<close> is -1, and the three are
  pairwise different.
\<close>

theorem blanking_codes:
  "NORMAL = 1 \<and> HOLE = 0 \<and> FRINGE = - 1 \<and> distinct [NORMAL, HOLE, FRINGE]"
  by (simp add: NORMAL_def HOLE_def FRINGE_def)

section \<open>Properties of getOrder\<close>

subsection \<open>The insertion sort\<close>

lemma mset_insert_before: "mset (insert_before lt v xs) = add_mset v (mset xs)"
  by (induction xs) auto

lemma mset_insert_all:
  "mset (foldl (\<lambda>front v. insert_before lt v front) acc xs) = mset acc + mset xs"
  by (induction xs arbitrary: acc) (simp_all add: mset_insert_before)

lemma mset_std_sort: "mset (std_sort lt xs) = mset xs"
  by (simp add: std_sort_def mset_insert_all)

lemma set_insert_before: "set (insert_before lt v xs) = insert v (set xs)"
  using mset_insert_before[of lt v xs] by (metis set_mset_add_mset_insert set_mset_mset)

lemma pair_less_asym: "pair_less p q \<Longrightarrow> \<not> pair_less q p"
  by (cases "fst p"; cases "fst q") (auto simp add: pair_less_def)

lemma pair_le_trans:
  assumes "fst p \<noteq> NaN" "fst q \<noteq> NaN" "fst r \<noteq> NaN"
    and "\<not> pair_less q p" "\<not> pair_less r q"
  shows "\<not> pair_less r p"
  using assms
  by (cases "fst p"; cases "fst q"; cases "fst r") (auto simp add: pair_less_def)

lemma sorted_insert_before:
  assumes "sorted_wrt (\<lambda>p q. \<not> pair_less q p) xs" "fst v \<noteq> NaN" "\<forall>p\<in>set xs. fst p \<noteq> NaN"
  shows "sorted_wrt (\<lambda>p q. \<not> pair_less q p) (insert_before pair_less v xs)"
  using assms
proof (induction xs)
  case Nil
  then show ?case by simp
next
  case (Cons u us)
  show ?case
  proof (cases "pair_less v u")
    case True
    have vu: "\<not> pair_less u v" using True by (rule pair_less_asym)
    have "\<not> pair_less q v" if "q \<in> set us" for q
    proof -
      have "\<not> pair_less q u" using Cons.prems(1) that by simp
      moreover have "fst u \<noteq> NaN" "fst q \<noteq> NaN" using Cons.prems(3) that by simp_all
      ultimately show ?thesis using pair_le_trans[of v u q] Cons.prems(2) vu by blast
    qed
    then show ?thesis using True vu Cons.prems(1) by simp
  next
    case False
    have "sorted_wrt (\<lambda>p q. \<not> pair_less q p) (insert_before pair_less v us)"
      using Cons by simp
    then show ?thesis using False Cons.prems(1) by (simp add: set_insert_before)
  qed
qed

lemma sorted_insert_all:
  assumes "sorted_wrt (\<lambda>p q. \<not> pair_less q p) acc"
    and "\<forall>p\<in>set acc. fst p \<noteq> NaN" "\<forall>p\<in>set xs. fst p \<noteq> NaN"
  shows "sorted_wrt (\<lambda>p q. \<not> pair_less q p)
           (foldl (\<lambda>front v. insert_before pair_less v front) acc xs)"
  using assms
proof (induction xs arbitrary: acc)
  case Nil
  then show ?case by simp
next
  case (Cons v xs)
  have v: "fst v \<noteq> NaN" using Cons.prems(3) by simp
  have 1: "sorted_wrt (\<lambda>p q. \<not> pair_less q p) (insert_before pair_less v acc)"
    using Cons.prems(1) v Cons.prems(2) by (rule sorted_insert_before)
  have 2: "\<forall>p\<in>set (insert_before pair_less v acc). fst p \<noteq> NaN"
    using v Cons.prems(2) by (simp add: set_insert_before)
  have 3: "\<forall>p\<in>set xs. fst p \<noteq> NaN" using Cons.prems(3) by simp
  show ?case using Cons.IH[OF 1 2 3] by simp
qed

lemma sorted_std_sort:
  "\<forall>p\<in>set xs. fst p \<noteq> NaN \<Longrightarrow> sorted_wrt (\<lambda>p q. \<not> pair_less q p) (std_sort pair_less xs)"
  unfolding std_sort_def by (rule sorted_insert_all) simp_all

text \<open>A vector that is in ascending order already stays as it is.\<close>

lemma insert_before_last:
  "\<forall>u\<in>set xs. \<not> lt v u \<Longrightarrow> insert_before lt v xs = xs @ [v]"
  by (induction xs) simp_all

lemma insert_all_sorted:
  "sorted_wrt (\<lambda>p q. \<not> lt q p) (acc @ xs) \<Longrightarrow>
   foldl (\<lambda>front v. insert_before lt v front) acc xs = acc @ xs"
proof (induction xs arbitrary: acc)
  case Nil
  show ?case by simp
next
  case (Cons v xs)
  have "\<forall>u\<in>set acc. \<not> lt v u" using Cons.prems by (auto simp add: sorted_wrt_append)
  then have "insert_before lt v acc = acc @ [v]" by (rule insert_before_last)
  moreover have "sorted_wrt (\<lambda>p q. \<not> lt q p) ((acc @ [v]) @ xs)" using Cons.prems by simp
  ultimately show ?case using Cons.IH[of "acc @ [v]"] by simp
qed

lemma std_sort_sorted_id:
  "sorted_wrt (\<lambda>p q. \<not> lt q p) xs \<Longrightarrow> std_sort lt xs = xs"
  unfolding std_sort_def using insert_all_sorted[of lt "[]" xs] by simp


subsection \<open>The sorted pairs\<close>

lemma int_of_size_t_small: "i < 2 ^ 31 \<Longrightarrow> int_of_size_t i = int i"
proof -
  assume "i < 2 ^ 31"
  then have a: "int i < 2 ^ 31" by simp
  have "(int i + 2 ^ 31) mod 2 ^ 32 = int i + 2 ^ 31"
    using a by (intro mod_pos_pos_trivial) simp_all
  then show ?thesis by (simp add: int_of_size_t_def)
qed

lemma mset_sorted_pairs:
  "mset (sorted_pairs data) = mset (map (\<lambda>i. (data ! i, i)) [0..<length data])"
  by (simp only: sorted_pairs_def mset_std_sort)

lemma length_sorted_pairs: "length (sorted_pairs data) = length data"
  using mset_sorted_pairs[of data] by (metis length_map length_upt mset_eq_length diff_zero)

lemma mset_snd_sorted_pairs: "mset (map snd (sorted_pairs data)) = mset [0..<length data]"
proof -
  have a: "map snd (map (\<lambda>i. (data ! i, i)) [0..<length data]) = [0..<length data]"
    by (simp add: comp_def)
  have "mset (map snd (sorted_pairs data)) =
        image_mset snd (mset (map (\<lambda>i. (data ! i, i)) [0..<length data]))"
    by (simp only: mset_map mset_sorted_pairs)
  also have "\<dots> = mset (map snd (map (\<lambda>i. (data ! i, i)) [0..<length data]))"
    by (simp only: mset_map)
  finally show ?thesis
    unfolding a .
qed

lemma set_sorted_pairs:
  "p \<in> set (sorted_pairs data) \<Longrightarrow> fst p = data ! snd p \<and> snd p < length data"
proof -
  assume "p \<in> set (sorted_pairs data)"
  then have "p \<in> set (map (\<lambda>i. (data ! i, i)) [0..<length data])"
    using mset_sorted_pairs[of data] by (metis set_mset_mset)
  then show ?thesis by auto
qed

lemma distinct_snd_sorted_pairs: "distinct (map snd (sorted_pairs data))"
proof -
  have "distinct [0..<length data]" by simp
  then show ?thesis
    using mset_snd_sorted_pairs[of data] by (metis mset_eq_imp_distinct_iff)
qed

lemma sorted_pairs_no_NaN:
  assumes "NaN \<notin> set data" "p \<in> set (sorted_pairs data)"
  shows "fst p \<noteq> NaN"
proof -
  have "fst p = data ! snd p" "snd p < length data"
    using set_sorted_pairs[OF assms(2)] by simp_all
  then have "fst p \<in> set data" by simp
  then show ?thesis using assms(1) by auto
qed

lemma sorted_sorted_pairs:
  assumes "NaN \<notin> set data"
  shows "sorted_wrt (\<lambda>p q. \<not> pair_less q p) (sorted_pairs data)"
proof -
  have "\<forall>p\<in>set (map (\<lambda>i. (data ! i, i)) [0..<length data]). fst p \<noteq> NaN"
    using assms by (auto simp add: in_set_conv_nth)
  then show ?thesis
    unfolding sorted_pairs_def by (rule sorted_std_sort)
qed

lemma sorted_pairs_nth_le:
  assumes "NaN \<notin> set data" "i < j" "j < length data"
  shows "\<not> pair_less (sorted_pairs data ! j) (sorted_pairs data ! i)"
  using sorted_sorted_pairs[OF assms(1)] assms(2,3)
  by (simp add: sorted_wrt_iff_nth_less length_sorted_pairs)

subsection \<open>The returned indices\<close>

lemma getOrder_nth:
  assumes "length data \<le> 2 ^ 31" "i < length data"
  shows "getOrder data ! i = int (snd (sorted_pairs data ! i))"
proof -
  have "sorted_pairs data ! i \<in> set (sorted_pairs data)"
    using assms by (simp add: length_sorted_pairs)
  then have "snd (sorted_pairs data ! i) < length data"
    by (simp add: set_sorted_pairs)
  then have "snd (sorted_pairs data ! i) < 2 ^ 31" using assms by simp
  then have "int_of_size_t (snd (sorted_pairs data ! i)) = int (snd (sorted_pairs data ! i))"
    by (rule int_of_size_t_small)
  moreover have "getOrder data ! i = int_of_size_t (snd (sorted_pairs data ! i))"
    using assms(2) length_sorted_pairs[of data]
    by (simp add: getOrder_def Let_def sorted_pairs_def)
  ultimately show ?thesis by simp
qed

lemma length_getOrder: "length (getOrder data) = length data"
  using length_sorted_pairs[of data] by (simp add: getOrder_def Let_def sorted_pairs_def)

lemma getOrder_eq:
  assumes "length data \<le> 2 ^ 31"
  shows "getOrder data = map (\<lambda>p. int (snd p)) (sorted_pairs data)"
  by (rule nth_equalityI)
     (simp_all add: length_getOrder length_sorted_pairs getOrder_nth[OF assms])

lemma getOrder_perm:
  assumes "length data \<le> 2 ^ 31"
  shows "mset (getOrder data) = mset (map int [0..<length data])"
proof -
  have "mset (getOrder data) = image_mset int (mset (map snd (sorted_pairs data)))"
    by (simp add: getOrder_eq[OF assms] multiset.map_comp comp_def)
  also have "\<dots> = image_mset int (mset [0..<length data])"
    by (simp only: mset_snd_sorted_pairs)
  finally show ?thesis by simp
qed

lemma getOrder_data:
  assumes "length data \<le> 2 ^ 31" "i < length data"
  shows "data ! nat (getOrder data ! i) = fst (sorted_pairs data ! i)"
proof -
  have "sorted_pairs data ! i \<in> set (sorted_pairs data)"
    using assms by (simp add: length_sorted_pairs)
  then show ?thesis
    by (simp add: getOrder_nth[OF assms] set_sorted_pairs)
qed

lemma getOrder_sorted:
  assumes "length data \<le> 2 ^ 31" "NaN \<notin> set data"
  shows "sorted_wrt dle (map (\<lambda>k. data ! nat k) (getOrder data))"
proof -
  have "dle (data ! nat (getOrder data ! i)) (data ! nat (getOrder data ! j))"
    if "i < j" "j < length data" for i j
  proof -
    let ?p = "sorted_pairs data ! i" and ?q = "sorted_pairs data ! j"
    have "\<not> pair_less ?q ?p"
      using assms(2) that by (rule sorted_pairs_nth_le)
    then have "\<not> dless (fst ?q) (fst ?p)" by (simp add: pair_less_def)
    moreover have "fst ?p \<noteq> NaN" "fst ?q \<noteq> NaN"
      using that by (simp_all add: sorted_pairs_no_NaN[OF assms(2)] length_sorted_pairs)
    ultimately have "dle (fst ?p) (fst ?q)" by (simp add: dle_def)
    then show ?thesis
      using that by (simp add: getOrder_data[OF assms(1)])
  qed
  then show ?thesis
    by (simp add: sorted_wrt_iff_nth_less length_getOrder)
qed

lemma dless_irrefl: "\<not> dless a a"
  by (cases a) simp_all

lemma getOrder_stable:
  assumes "length data \<le> 2 ^ 31" "NaN \<notin> set data" "i < j" "j < length data"
    and eq: "data ! nat (getOrder data ! i) = data ! nat (getOrder data ! j)"
  shows "getOrder data ! i < getOrder data ! j"
proof -
  let ?p = "sorted_pairs data ! i" and ?q = "sorted_pairs data ! j"
  have le: "\<not> pair_less ?q ?p"
    using assms(2,3,4) by (rule sorted_pairs_nth_le)
  have "fst ?p = fst ?q"
    using eq assms by (simp add: getOrder_data)
  with le have "snd ?p \<le> snd ?q"
    by (simp add: pair_less_def dless_irrefl)
  moreover have "snd ?p \<noteq> snd ?q"
    using distinct_snd_sorted_pairs[of data] assms(3,4)
    by (simp add: distinct_conv_nth length_sorted_pairs)
  ultimately show ?thesis
    using assms by (simp add: getOrder_nth)
qed

text \<open>
  Claim C8, as the code has it.  For data without NaN of length \<open>n\<close> at most \<open>2^31\<close>, so
  that every index fits the \<^verbatim>\<open>int\<close> it is stored in, \<open>getOrder data\<close> is a permutation
  of \<open>0, \<dots>, n-1\<close>; the data read in that order is non-decreasing; and of two equal
  entries the one with the smaller original index comes first.
\<close>

theorem getOrder_stable_ascending:
  assumes "length data \<le> 2 ^ 31" and "NaN \<notin> set data"
  shows "length (getOrder data) = length data \<and>
         mset (getOrder data) = mset (map int [0..<length data]) \<and>
         sorted_wrt dle (map (\<lambda>k. data ! nat k) (getOrder data)) \<and>
         (\<forall>i j. i < j \<and> j < length data \<and>
                data ! nat (getOrder data ! i) = data ! nat (getOrder data ! j) \<longrightarrow>
                getOrder data ! i < getOrder data ! j)"
  using assms
  by (simp add: length_getOrder getOrder_perm getOrder_sorted getOrder_stable)

lemma getOrder_example: "getOrder [Fin 3, Fin 1, Fin 2, Fin 1] = [1, 3, 2, 0]"
  by (simp add: getOrder_def Let_def upt_rec std_sort_def pair_less_def int_of_size_t_def)

theorem getOrder_stable_ascending_witness:
  "length [Fin 3, Fin 1, Fin 2, Fin 1] \<le> 2 ^ 31 \<and>
   NaN \<notin> set [Fin 3, Fin 1, Fin 2, Fin 1] \<and>
   getOrder [Fin 3, Fin 1, Fin 2, Fin 1] = [1, 3, 2, 0] \<and>
   mset (getOrder [Fin 3, Fin 1, Fin 2, Fin 1]) = mset [0, 1, 2, 3] \<and>
   sorted_wrt dle (map (\<lambda>k. [Fin 3, Fin 1, Fin 2, Fin 1] ! nat k) (getOrder [Fin 3, Fin 1, Fin 2, Fin 1])) \<and>
   getOrder [Fin 3, Fin 1, Fin 2, Fin 1] ! 0 < getOrder [Fin 3, Fin 1, Fin 2, Fin 1] ! 1"
proof -
  let ?d = "[Fin 3, Fin 1, Fin 2, Fin 1]"
  have h: "length ?d \<le> 2 ^ 31" by simp
  have n: "NaN \<notin> set ?d" by simp
  have u: "[0..<length ?d] = [0, 1, 2, 3]" by (simp add: upt_rec)
  from getOrder_stable_ascending[OF h n] have
    p: "mset (getOrder ?d) = mset (map int [0..<length ?d])" and
    s: "sorted_wrt dle (map (\<lambda>k. ?d ! nat k) (getOrder ?d))" and
    t: "\<forall>i j. i < j \<and> j < length ?d \<and>
                ?d ! nat (getOrder ?d ! i) = ?d ! nat (getOrder ?d ! j) \<longrightarrow>
                getOrder ?d ! i < getOrder ?d ! j"
    by blast+
  have lt: "getOrder ?d ! 0 < getOrder ?d ! 1"
    using t[rule_format, of 0 1] by (simp add: getOrder_example)
  have p': "mset (getOrder ?d) = mset [0, 1, 2, 3]"
    using p unfolding u by simp
  show ?thesis
    using h n p' s lt getOrder_example by blast
qed

subsection \<open>Where the claim fails\<close>

lemma sorted_constant_pairs:
  "sorted_wrt (\<lambda>p q. \<not> pair_less q p) (map (\<lambda>i. (c, i)) [0..<n])"
  by (simp add: sorted_wrt_iff_nth_less pair_less_def dless_irrefl)

lemma sorted_pairs_replicate:
  "sorted_pairs (replicate n c) = map (\<lambda>i. (c, i)) [0..<n]"
proof -
  have "map (\<lambda>i. (replicate n c ! i, i)) [0..<length (replicate n c)] = map (\<lambda>i. (c, i)) [0..<n]"
    by simp
  then show ?thesis
    unfolding sorted_pairs_def by (simp only: std_sort_sorted_id[OF sorted_constant_pairs])
qed

lemma getOrder_replicate_nth:
  assumes "i < n"
  shows "getOrder (replicate n c) ! i = int_of_size_t i"
proof -
  have "getOrder (replicate n c) ! i = int_of_size_t (snd (sorted_pairs (replicate n c) ! i))"
    using assms length_sorted_pairs[of "replicate n c"]
    by (simp add: getOrder_def Let_def sorted_pairs_def)
  also have "\<dots> = int_of_size_t i"
    using assms by (simp only: sorted_pairs_replicate) simp
  finally show ?thesis .
qed

lemma getOrder_large:
  "getOrder (replicate (2 ^ 31 + 1) (Fin 0)) ! (2 ^ 31) = - (2 ^ 31)"
proof -
  have "(2::nat) ^ 31 < 2 ^ 31 + 1" by simp
  then have "getOrder (replicate (2 ^ 31 + 1) (Fin 0)) ! (2 ^ 31) = int_of_size_t (2 ^ 31)"
    by (rule getOrder_replicate_nth)
  also have "int_of_size_t (2 ^ 31) = - (2 ^ 31)"
    by (simp add: int_of_size_t_def)
  finally show ?thesis .
qed

lemma getOrder_NaN: "getOrder [NaN, Fin 1, Fin 0] = [0, 2, 1]"
  by (simp add: getOrder_def Let_def upt_rec std_sort_def pair_less_def int_of_size_t_def)

text \<open>Whatever order a vector with a NaN and another entry is put in, it is not
  non-decreasing: NaN is neither below nor above anything.\<close>

lemma NaN_never_sorted:
  assumes "NaN \<in> set xs" "2 \<le> length xs"
  shows "\<not> sorted_wrt dle xs"
proof
  assume s: "sorted_wrt dle xs"
  obtain k where k: "k < length xs" "xs ! k = NaN"
    using assms(1) by (auto simp add: in_set_conv_nth)
  obtain l where l: "l < length xs" "l \<noteq> k"
    using assms(2) k(1) by (cases "k = 0") (auto intro: that[of 0] that[of 1])
  have "dle (xs ! k) (xs ! l) \<or> dle (xs ! l) (xs ! k)"
    using s k(1) l by (cases "k < l") (auto simp add: sorted_wrt_iff_nth_less)
  then show False using k(2) by (simp add: dle_def)
qed

text \<open>
  The claim as written covers every vector of doubles.  In a vector of \<open>2^31 + 1\<close> equal
  entries the entry at position \<open>2^31\<close> keeps its place, and its index does not fit the
  \<^verbatim>\<open>int\<close> it is stored in: the result holds a negative number there, which is no index.
  For the data NaN, 1, 0 the result is 0, 2, 1, and the data read in that order starts
  with NaN and 0, of which the first is not below or equal to the second.
\<close>

theorem getOrder_counterexample:
  "getOrder (replicate (2 ^ 31 + 1) (Fin 0)) ! (2 ^ 31) = - (2 ^ 31) \<and>
   getOrder [NaN, Fin 1, Fin 0] = [0, 2, 1] \<and>
   \<not> dle ([NaN, Fin 1, Fin 0] ! nat (getOrder [NaN, Fin 1, Fin 0] ! 0))
           ([NaN, Fin 1, Fin 0] ! nat (getOrder [NaN, Fin 1, Fin 0] ! 1))"
  using getOrder_large getOrder_NaN by (simp add: dle_def)

section \<open>Properties of calcDt\<close>



























section \<open>Properties of the gather\<close>

lemma nth_concat_block:
  "r < length xss \<Longrightarrow> i < length (xss ! r) \<Longrightarrow>
     concat xss ! (sum_list (map length (take r xss)) + i) = xss ! r ! i"
proof (induction xss arbitrary: r)
  case Nil
  then show ?case by simp
next
  case (Cons xs xss)
  show ?case
  proof (cases r)
    case 0
    with Cons.prems show ?thesis by (simp add: nth_append)
  next
    case (Suc r')
    with Cons.prems have "concat xss ! (sum_list (map length (take r' xss)) + i) = xss ! r' ! i"
      by (intro Cons.IH) simp_all
    with Suc show ?thesis by (simp add: nth_append add.assoc)
  qed
qed

lemma sum_list_take_mono:
  fixes f :: "'b \<Rightarrow> nat"
  shows "r \<le> r' \<Longrightarrow> sum_list (map f (take r xs)) \<le> sum_list (map f (take r' xs))"
proof -
  assume "r \<le> r'"
  then have "take r' xs = take r xs @ take (r' - r) (drop r xs)"
    by (metis le_add_diff_inverse take_add)
  then show ?thesis by simp
qed

lemma sum_list_take_Suc:
  fixes f :: "'b \<Rightarrow> nat"
  shows "r < length xs \<Longrightarrow> sum_list (map f (take (Suc r) xs)) = sum_list (map f (take r xs)) + f (xs ! r)"
  by (simp add: take_Suc_conv_app_nth)

lemma gatherData_blocks:
  assumes "\<not> list_ex (\<lambda>(nPieces, vals). length vals < nPieces * stride) locals"
  shows "map length (map (\<lambda>(nPieces, vals). take (nPieces * stride) vals) locals) =
         map (\<lambda>(nPieces, vals). nPieces * stride) locals"
  using assms by (induction locals) (auto simp add: min_def)


lemma displacement_Suc:
  "r < length locals \<Longrightarrow>
     displacement stride locals (Suc r) = displacement stride locals r + fst (locals ! r) * stride"
  by (simp add: displacement_def sum_list_take_Suc case_prod_beta)

lemma displacement_mono:
  "r \<le> r' \<Longrightarrow> displacement stride locals r \<le> displacement stride locals r'"
  unfolding displacement_def by (rule sum_list_take_mono)

lemma displacement_order:
  assumes "r' < length locals" "i < fst (locals ! r) * stride" "r < r' \<or> r = r' \<and> i < i'"
  shows "displacement stride locals r + i < displacement stride locals r' + i'"
  using assms(3)
proof
  assume lt: "r < r'"
  then have "r < length locals" using assms(1) by simp
  then have "displacement stride locals r + i < displacement stride locals (Suc r)"
    using assms(2) by (simp add: displacement_Suc)
  also have "\<dots> \<le> displacement stride locals r'"
    using lt by (intro displacement_mono) simp
  finally show ?thesis by simp
next
  assume "r = r' \<and> i < i'"
  then show ?thesis by simp
qed

lemma list_all_not_ex:
  "list_all (\<lambda>(nPieces, vals). nPieces * stride \<le> length vals) locals \<Longrightarrow>
   \<not> list_ex (\<lambda>(nPieces, vals). length vals < nPieces * stride) locals"
  by (induction locals) auto

lemma gatherData_nth:
  assumes ok: "\<not> list_ex (\<lambda>(nPieces, vals). length vals < nPieces * stride) locals"
    and r: "r < length locals" and i: "i < fst (locals ! r) * stride"
  shows "concat (map (\<lambda>(nPieces, vals). take (nPieces * stride) vals) locals)
           ! (displacement stride locals r + i) = snd (locals ! r) ! i"
proof -
  let ?blocks = "map (\<lambda>(nPieces, vals). take (nPieces * stride) vals) locals"
  have len: "map length ?blocks = map (\<lambda>(nPieces, vals). nPieces * stride) locals"
    by (rule gatherData_blocks[OF ok])
  have d: "displacement stride locals r = sum_list (map length (take r ?blocks))"
    unfolding displacement_def using len by (metis take_map)
  have li: "length (?blocks ! r) = fst (locals ! r) * stride"
    using len r by (metis (no_types, lifting) case_prod_beta length_map nth_map)
  have "concat ?blocks ! (sum_list (map length (take r ?blocks)) + i) = ?blocks ! r ! i"
    using r i li by (intro nth_concat_block) simp_all
  also have "?blocks ! r ! i = snd (locals ! r) ! i"
    using r i by (simp add: case_prod_beta)
  finally show ?thesis unfolding d .
qed

text \<open>
  Claim C5.  Whenever every rank's buffer holds the \<open>nPieces * stride\<close> values it
  announces, the gather returns, for any element type: the per-rank counts, and a merged
  output in which the block of rank \<open>r\<close> starts at the displacement of \<open>r\<close> and repeats the
  rank's values in their local order.  Positions grow with the rank first and the local
  index second, so the output is ordered by ascending rank and, within a rank, by the
  original local order.
\<close>

theorem gatherData_rank_order:
  fixes locals :: "(nat \<times> 'a list) list"
  assumes "list_all (\<lambda>(nPieces, vals). nPieces * stride \<le> length vals) locals"
  shows "\<exists>nPieces_rank values_all.
           gatherData stride locals = Inr (nPieces_rank, values_all) \<and>
           nPieces_rank = map fst locals \<and>
           length values_all = displacement stride locals (length locals) \<and>
           (\<forall>r i. r < length locals \<and> i < fst (locals ! r) * stride \<longrightarrow>
              values_all ! (displacement stride locals r + i) = snd (locals ! r) ! i) \<and>
           (\<forall>r i r' i'. r' < length locals \<and> i < fst (locals ! r) * stride \<and>
              (r < r' \<or> r = r' \<and> i < i') \<longrightarrow>
              displacement stride locals r + i < displacement stride locals r' + i')"
proof -
  have ok: "\<not> list_ex (\<lambda>(nPieces, vals). length vals < nPieces * stride) locals"
    using assms by (rule list_all_not_ex)
  let ?all = "concat (map (\<lambda>(nPieces, vals). take (nPieces * stride) vals) locals)"
  have g: "gatherData stride locals = Inr (map fst locals, ?all)"
    using ok by (simp add: gatherData_def)
  have "length ?all = sum_list (map length (map (\<lambda>(nPieces, vals). take (nPieces * stride) vals) locals))"
    by (simp only: length_concat)
  then have len: "length ?all = displacement stride locals (length locals)"
    by (simp only: gatherData_blocks[OF ok] displacement_def take_all order_refl)
  have nth: "\<forall>r i. r < length locals \<and> i < fst (locals ! r) * stride \<longrightarrow>
      ?all ! (displacement stride locals r + i) = snd (locals ! r) ! i"
    using gatherData_nth[OF ok] by blast
  have ord: "\<forall>r i r' i'. r' < length locals \<and> i < fst (locals ! r) * stride \<and>
      (r < r' \<or> r = r' \<and> i < i') \<longrightarrow>
      displacement stride locals r + i < displacement stride locals r' + i'"
    using displacement_order[of _ locals _ _ stride] by blast
  show ?thesis
    using g len nth ord by blast
qed

theorem gatherData_rank_order_witness:
  "gatherData 2 [(1::nat, [10, 11]), (0, []), (2, [20::int, 21, 22, 23])] =
     Inr ([1, 0, 2], [10, 11, 20, 21, 22, 23]) \<and>
   displacement 2 [(1::nat, [10, 11]), (0, []), (2, [20::int, 21, 22, 23])] 2 = 2 \<and>
   [10, 11, 20, 21, 22, 23] ! (displacement 2 [(1::nat, [10, 11]), (0, []), (2, [20::int, 21, 22, 23])] 2 + 3)
     = snd ([(1::nat, [10, 11]), (0, []), (2, [20::int, 21, 22, 23])] ! 2) ! 3"
proof -
  let ?l = "[(1::nat, [10, 11]), (0, []), (2, [20::int, 21, 22, 23])]"
  have h: "list_all (\<lambda>(nPieces, vals). nPieces * 2 \<le> length vals) ?l" by simp
  have v: "gatherData 2 ?l = Inr ([1, 0, 2], [10, 11, 20, 21, 22, 23])"
    by (simp add: gatherData_def)
  have d: "displacement 2 ?l 2 = 2"
    by (simp add: displacement_def eval_nat_numeral)
  from gatherData_rank_order[OF h] obtain nr va where
    g: "gatherData 2 ?l = Inr (nr, va)" and
    n: "\<forall>r i. r < length ?l \<and> i < fst (?l ! r) * 2 \<longrightarrow>
          va ! (displacement 2 ?l r + i) = snd (?l ! r) ! i"
    by blast
  have va: "va = [10, 11, 20, 21, 22, 23]" using g v by simp
  have "va ! (displacement 2 ?l 2 + 3) = snd (?l ! 2) ! 3"
    by (rule n[rule_format]) simp
  then show ?thesis
    unfolding va using v d by simp
qed

section \<open>Properties of the overset exchange\<close>

subsection \<open>The plan after a reconnection event\<close>

lemma length_matchOversetPoints: "length (matchOversetPoints search w) = length w"
  by (simp add: matchOversetPoints_def)

lemma length_refreshPlan: "length (refreshPlan w) = length w"
  by (simp add: refreshPlan_def)

lemma matchOversetPoints_nth:
  "A < length w \<Longrightarrow>
   matchOversetPoints search w ! A =
     (w ! A)\<lparr>foundPts := map (\<lambda>g. if g = A then [] else map fst (search A g)) [0..<length w],
              foundEles := map (\<lambda>g. if g = A then [] else map (\<lambda>m. fst (snd m)) (search A g)) [0..<length w],
              foundLocs := map (\<lambda>g. if g = A then [] else map (\<lambda>m. snd (snd m)) (search A g)) [0..<length w],
              planStale := True\<rparr>"
  by (simp add: matchOversetPoints_def Let_def comp_def if_distrib[of "map _"] cong: if_cong)

lemma refreshPlan_nth:
  "X < length w \<Longrightarrow>
   refreshPlan w ! X =
     (w ! X)\<lparr>nPtsSend := map length (foundPts (w ! X)),
              nPtsRecv := map (\<lambda>A. length (entry (foundPts (w ! A)) X)) [0..<length w],
              recvPts := map (\<lambda>A. entry (foundPts (w ! A)) X) [0..<length w],
              U_in := reallocate (nOverPts (w ! X)) (nFields (w ! X)) (U_in (w ! X)),
              U_out := map (\<lambda>k. replicate k (replicate (nFields (w ! X)) 0)) (map length (foundPts (w ! X))),
              planStale := False,
              nOrphans := length (orphanPts (nOverPts (w ! X))
                                   (map (\<lambda>A. entry (foundPts (w ! A)) X) [0..<length w]))\<rparr>"
  by (simp add: refreshPlan_def Let_def comp_def)

lemma entry_nth: "g < length xss \<Longrightarrow> entry xss g = xss ! g"
  by (simp add: entry_def)

lemma reconnected_foundPts:
  assumes "A < length w"
  shows "foundPts (refreshPlan (matchOversetPoints search w) ! A) =
           map (\<lambda>g. if g = A then [] else map fst (search A g)) [0..<length w]"
  using assms
  by (simp add: refreshPlan_nth length_matchOversetPoints matchOversetPoints_nth)

lemma reconnected_recvPts:
  assumes "X < length w"
  shows "recvPts (refreshPlan (matchOversetPoints search w) ! X) =
           map (\<lambda>A. if X = A then [] else map fst (search A X)) [0..<length w]"
  using assms
  by (simp add: refreshPlan_nth length_matchOversetPoints matchOversetPoints_nth entry_nth)

lemma reconnected_nPtsSend:
  assumes "A < length w"
  shows "nPtsSend (refreshPlan (matchOversetPoints search w) ! A) =
           map length (foundPts (refreshPlan (matchOversetPoints search w) ! A))"
  using assms
  by (simp add: refreshPlan_nth length_matchOversetPoints)

lemma reconnected_nPtsRecv:
  assumes "X < length w"
  shows "nPtsRecv (refreshPlan (matchOversetPoints search w) ! X) =
           map length (recvPts (refreshPlan (matchOversetPoints search w) ! X))"
  using assms
  by (simp add: refreshPlan_nth length_matchOversetPoints comp_def)

text \<open>
  Claim C2.  After a reconnection event and its plan refresh the plan is consistent over
  all grids: on each grid \<open>A\<close> the entries of \<open>nPtsSend\<close> (one per grid) sum to the number
  of receptor points that \<open>A\<close> found and supplies, and for every ordered pair of grids
  \<open>(A, X)\<close> the entry of \<open>A\<close>'s \<open>nPtsSend\<close> for \<open>X\<close> equals the entry of \<open>X\<close>'s \<open>nPtsRecv\<close>
  for \<open>A\<close>; the IDs that \<open>X\<close> expects from \<open>A\<close> are those that \<open>A\<close> found for \<open>X\<close>, in the
  same order.
\<close>

theorem plan_consistent:
  fixes w :: "exchangeChannel list"
  shows "let w' = refreshPlan (matchOversetPoints search w) in
         length w' = length w \<and>
         (\<forall>A. A < length w \<longrightarrow>
            length (nPtsSend (w' ! A)) = length w \<and>
            length (nPtsRecv (w' ! A)) = length w \<and>
            sum_list (nPtsSend (w' ! A)) = length (concat (foundPts (w' ! A)))) \<and>
         (\<forall>A X. A < length w \<and> X < length w \<longrightarrow>
            nPtsSend (w' ! A) ! X = nPtsRecv (w' ! X) ! A \<and>
            nPtsSend (w' ! A) ! X = length (foundPts (w' ! A) ! X) \<and>
            recvPts (w' ! X) ! A = foundPts (w' ! A) ! X)"
proof -
  let ?w' = "refreshPlan (matchOversetPoints search w)"
  have len: "length ?w' = length w"
    by (simp add: length_refreshPlan length_matchOversetPoints)
  have per_grid: "length (nPtsSend (?w' ! A)) = length w \<and>
            length (nPtsRecv (?w' ! A)) = length w \<and>
            sum_list (nPtsSend (?w' ! A)) = length (concat (foundPts (?w' ! A)))"
    if "A < length w" for A
    using that
    by (simp add: reconnected_nPtsSend reconnected_nPtsRecv reconnected_recvPts
        reconnected_foundPts length_concat)
  have pairs: "nPtsSend (?w' ! A) ! X = nPtsRecv (?w' ! X) ! A \<and>
            nPtsSend (?w' ! A) ! X = length (foundPts (?w' ! A) ! X) \<and>
            recvPts (?w' ! X) ! A = foundPts (?w' ! A) ! X"
    if "A < length w" "X < length w" for A X
    using that
    by (auto simp add: reconnected_nPtsSend reconnected_nPtsRecv reconnected_recvPts
        reconnected_foundPts)
  show ?thesis
    unfolding Let_def using len per_grid pairs by blast
qed


subsection \<open>Stale plans\<close>

lemma matchOversetPoints_stale:
  "list_all planStale (matchOversetPoints search w)"
  by (simp add: list_all_length length_matchOversetPoints matchOversetPoints_nth)

lemma refreshPlan_fresh:
  "\<not> list_ex planStale (refreshPlan w)"
  by (simp add: list_ex_length length_refreshPlan refreshPlan_nth)

lemma stale_rejected:
  assumes "w \<noteq> []" "list_all planStale w"
  shows "exchangeOversetData interp w = Inl StalePlan"
proof -
  obtain c cs where "w = c # cs" using assms(1) by (cases w) auto
  then have "list_ex planStale w" using assms(2) by simp
  then show ?thesis by (simp add: exchangeOversetData_def)
qed

lemma collect_Inr:
  "collect rs = Inr as \<Longrightarrow> length as = length rs \<and> (\<forall>k<length rs. rs ! k = Inr (as ! k))"
proof (induction rs arbitrary: as rule: collect.induct)
  case 1
  then show ?case by simp
next
  case (2 e rs)
  then show ?case by simp
next
  case (3 a rs)
  from "3.prems" obtain as' where c: "collect rs = Inr as'" and as: "as = a # as'"
    by (auto split: sum.splits)
  from "3.IH"[OF c] show ?case
    by (auto simp add: as nth_Cons split: nat.splits)
qed

lemma length_sendBuffers: "length (sendBuffers interp w) = length w"
  by (simp add: sendBuffers_def)

lemma exchange_Inr:
  assumes "exchangeOversetData interp w = Inr w'"
  shows "\<not> list_ex planStale w \<and> length w' = length w"
proof -
  have fresh: "\<not> list_ex planStale w"
    using assms by (auto simp add: exchangeOversetData_def split: if_splits)
  let ?sent = "sendBuffers interp w"
  have "collect (map (receive ?sent) [0..<length ?sent]) = Inr w'"
    using assms fresh by (simp add: exchangeOversetData_def Let_def)
  from collect_Inr[OF this] have "length w' = length w"
    by (simp add: length_sendBuffers)
  with fresh show ?thesis by simp
qed

lemma unpack_not_stale: "unpack ps vs U \<noteq> Inl StalePlan"
  by (induction ps vs U rule: unpack.induct) simp_all

lemma unpackAll_not_stale: "unpackAll pss vss U \<noteq> Inl StalePlan"
  by (induction pss vss U rule: unpackAll.induct) (auto simp add: unpack_not_stale split: sum.splits)

lemma receive_not_stale: "receive sent X \<noteq> Inl StalePlan"
  by (auto simp add: receive_def Let_def unpackAll_not_stale split: sum.splits)

lemma collect_Inl: "collect rs = Inl e \<Longrightarrow> Inl e \<in> set rs"
  by (induction rs rule: collect.induct) (auto split: sum.splits)

lemma fresh_not_rejected:
  assumes "\<not> list_ex planStale w"
  shows "exchangeOversetData interp w \<noteq> Inl StalePlan"
proof
  assume "exchangeOversetData interp w = Inl StalePlan"
  then have "collect (map (receive (sendBuffers interp w)) [0..<length (sendBuffers interp w)]) = Inl StalePlan"
    using assms by (simp add: exchangeOversetData_def Let_def)
  from collect_Inl[OF this] show False
    using receive_not_stale by fastforce
qed

lemma run_invariant:
  assumes "run evs w = Inr w'" "w \<noteq> []" "b \<longrightarrow> list_all planStale w" "refreshPending b evs"
  shows "list_all planStale w' \<and> w' \<noteq> []"
  using assms
proof (induction evs arbitrary: w b)
  case Nil
  then show ?case by simp
next
  case (Cons ev evs)
  show ?case
  proof (cases ev)
    case (Reconnect search)
    let ?w1 = "matchOversetPoints search w"
    have "run evs ?w1 = Inr w'" using Cons.prems(1) Reconnect by simp
    moreover have "?w1 \<noteq> []"
      using Cons.prems(2) length_matchOversetPoints[of search w] by auto
    moreover have "True \<longrightarrow> list_all planStale ?w1"
      by (simp add: matchOversetPoints_stale)
    moreover have "refreshPending True evs" using Cons.prems(4) Reconnect by simp
    ultimately show ?thesis by (rule Cons.IH)
  next
    case Refresh
    let ?w1 = "refreshPlan w"
    have "run evs ?w1 = Inr w'" using Cons.prems(1) Refresh by simp
    moreover have "?w1 \<noteq> []"
      using Cons.prems(2) length_refreshPlan[of w] by auto
    moreover have "False \<longrightarrow> list_all planStale ?w1" by simp
    moreover have "refreshPending False evs" using Cons.prems(4) Refresh by simp
    ultimately show ?thesis by (rule Cons.IH)
  next
    case (Exchange interp)
    from Cons.prems(1) Exchange obtain w1 where
      s: "exchangeOversetData interp w = Inr w1" and r: "run evs w1 = Inr w'"
      by (auto split: sum.splits)
    have nb: "\<not> b"
    proof
      assume b
      then have "exchangeOversetData interp w = Inl StalePlan"
        using Cons.prems(2,3) by (simp add: stale_rejected)
      with s show False by simp
    qed
    have "w1 \<noteq> []" using exchange_Inr[OF s] Cons.prems(2) by auto
    moreover have "b \<longrightarrow> list_all planStale w1" using nb by simp
    moreover have "refreshPending b evs" using Cons.prems(4) Exchange by simp
    ultimately show ?thesis using r Cons.IH by blast
  qed
qed

lemma run_append:
  "run (evs @ evs') w = (case run evs w of Inl e \<Rightarrow> Inl e | Inr w' \<Rightarrow> run evs' w')"
  by (induction evs arbitrary: w) (auto split: sum.splits)

text \<open>
  Claim C3.  Whenever the requests served so far leave a reconnection event without a
  plan refresh after it, an exchange fails with the error \<open>StalePlan\<close>: the run that
  continues with it stops there and no buffer is packed or sent.  An exchange that follows
  a refresh is not rejected as stale.
\<close>

theorem stale_plan_rejected:
  assumes "w \<noteq> []" and "run evs w = Inr w'" and "refreshPending False evs"
  shows "exchangeOversetData interp w' = Inl StalePlan \<and>
         run (evs @ [Exchange interp]) w = Inl StalePlan \<and>
         exchangeOversetData interp (refreshPlan w') \<noteq> Inl StalePlan"
proof -
  have inv: "list_all planStale w' \<and> w' \<noteq> []"
    using run_invariant[OF assms(2) assms(1) _ assms(3)] by simp
  then have rej: "exchangeOversetData interp w' = Inl StalePlan"
    by (simp add: stale_rejected)
  then have "run (evs @ [Exchange interp]) w = Inl StalePlan"
    by (simp add: run_append assms(2))
  moreover have "exchangeOversetData interp (refreshPlan w') \<noteq> Inl StalePlan"
    using refreshPlan_fresh[of w'] by (rule fresh_not_rejected)
  ultimately show ?thesis using rej by simp
qed


subsection \<open>Orphan points\<close>

lemma unpack_ok:
  assumes "length ps = length vs" "\<forall>p\<in>set ps. p < length U"
  shows "\<exists>U'. unpack ps vs U = Inr U' \<and> length U' = length U \<and>
              (\<forall>q. q \<notin> set ps \<longrightarrow> U' ! q = U ! q)"
  using assms
proof (induction ps vs U rule: unpack.induct)
  case (2 p ps v vs U)
  have p: "p < length U" using "2.prems" by simp
  have "length ps = length vs" "\<forall>q\<in>set ps. q < length (U[p := v])"
    using "2.prems" by simp_all
  from "2.IH"[OF p this] obtain U' where
    U': "unpack ps vs (U[p := v]) = Inr U'" "length U' = length (U[p := v])"
        "\<forall>q. q \<notin> set ps \<longrightarrow> U' ! q = U[p := v] ! q"
    by blast
  then show ?case using p by auto
qed simp_all

lemma unpackAll_ok:
  assumes "list_all2 (\<lambda>ps vs. length ps = length vs) pss vss"
    and "\<forall>ps\<in>set pss. \<forall>p\<in>set ps. p < length U"
  shows "\<exists>U'. unpackAll pss vss U = Inr U' \<and> length U' = length U \<and>
              (\<forall>q. (\<forall>ps\<in>set pss. q \<notin> set ps) \<longrightarrow> U' ! q = U ! q)"
  using assms
proof (induction pss vss arbitrary: U rule: list_all2_induct)
  case Nil
  then show ?case by simp
next
  case (Cons ps pss vs vss)
  have "\<forall>p\<in>set ps. p < length U" using Cons.prems by simp
  from unpack_ok[OF Cons.hyps(1) this] obtain U1 where
    U1: "unpack ps vs U = Inr U1" "length U1 = length U" "\<forall>q. q \<notin> set ps \<longrightarrow> U1 ! q = U ! q"
    by blast
  have "\<forall>ps\<in>set pss. \<forall>p\<in>set ps. p < length U1" using Cons.prems U1(2) by simp
  from Cons.IH[OF this] obtain U' where
    U': "unpackAll pss vss U1 = Inr U'" "length U' = length U1"
        "\<forall>q. (\<forall>ps\<in>set pss. q \<notin> set ps) \<longrightarrow> U' ! q = U1 ! q"
    by blast
  show ?case using U1 U' by auto
qed

lemma collect_map_ok:
  "(\<And>k. k \<in> set ks \<Longrightarrow> \<exists>a. f k = Inr a) \<Longrightarrow> \<exists>as. collect (map f ks) = Inr as"
proof (induction ks)
  case Nil
  then show ?case by simp
next
  case (Cons k ks)
  from Cons.prems obtain a where a: "f k = Inr a" by auto
  from Cons obtain as where "collect (map f ks) = Inr as" by auto
  with a show ?case by simp
qed

lemma mem_orphanPts:
  "p \<in> set (orphanPts nPts recv) \<longleftrightarrow> p < nPts \<and> (\<forall>ps\<in>set recv. p \<notin> set ps)"
  by (auto simp add: orphanPts_def list_ex_iff)

lemma length_reallocate: "length (reallocate nRows nCols U) = nRows"
  by (simp add: reallocate_def)

lemma reallocate_nth:
  "p < nRows \<Longrightarrow>
   reallocate nRows nCols U ! p = (if p < length U then U ! p else replicate nCols 0)"
  by (auto simp add: reallocate_def nth_append)

lemma reconnected_fields:
  assumes "X < length w"
  shows "nOverPts (refreshPlan (matchOversetPoints search w) ! X) = nOverPts (w ! X)"
    and "U_in (refreshPlan (matchOversetPoints search w) ! X) =
           reallocate (nOverPts (w ! X)) (nFields (w ! X)) (U_in (w ! X))"
    and "nOrphans (refreshPlan (matchOversetPoints search w) ! X) =
           length (orphanPts (nOverPts (w ! X)) (recvPts (refreshPlan (matchOversetPoints search w) ! X)))"
    and "foundEles (refreshPlan (matchOversetPoints search w) ! X) =
           map (\<lambda>g. if g = X then [] else map (\<lambda>m. fst (snd m)) (search X g)) [0..<length w]"
    and "foundLocs (refreshPlan (matchOversetPoints search w) ! X) =
           map (\<lambda>g. if g = X then [] else map (\<lambda>m. snd (snd m)) (search X g)) [0..<length w]"
  using assms
  by (simp_all add: refreshPlan_nth length_matchOversetPoints matchOversetPoints_nth)


lemma sendBuffers_nth:
  "A < length w \<Longrightarrow> sendBuffers interp w ! A = (w ! A)\<lparr>U_out := pack (interp A) (w ! A)\<rparr>"
  by (simp add: sendBuffers_def)

lemma length_pack_entry:
  assumes "A < length w" "X < length w"
  shows "length (entry (pack f (refreshPlan (matchOversetPoints search w) ! A)) X) =
         length (recvPts (refreshPlan (matchOversetPoints search w) ! X) ! A)"
proof -
  let ?w' = "refreshPlan (matchOversetPoints search w)"
  have n: "length (nPtsSend (?w' ! A)) = length w"
    using assms(1) by (simp add: reconnected_nPtsSend reconnected_foundPts)
  have "entry (pack f (?w' ! A)) X =
        map (\<lambda>(e, loc). f e loc) (zip (entry (foundEles (?w' ! A)) X) (entry (foundLocs (?w' ! A)) X))"
    using assms(2) n by (simp add: pack_def entry_def)
  then show ?thesis
    using assms by (simp add: reconnected_fields reconnected_recvPts entry_nth)
qed

lemma receive_after_reconnect:
  assumes X: "X < length w"
    and inrange: "\<forall>A<length w. A \<noteq> X \<longrightarrow> (\<forall>m\<in>set (search A X). fst m < nOverPts (w ! X))"
  shows "\<exists>U'. receive (sendBuffers interp (refreshPlan (matchOversetPoints search w))) X =
               Inr ((sendBuffers interp (refreshPlan (matchOversetPoints search w)) ! X)\<lparr>U_in := U'\<rparr>) \<and>
             (\<forall>q. (\<forall>A<length w. A \<noteq> X \<longrightarrow> q \<notin> fst ` set (search A X)) \<longrightarrow>
                  U' ! q = U_in (refreshPlan (matchOversetPoints search w) ! X) ! q)"
proof -
  let ?w' = "refreshPlan (matchOversetPoints search w)"
  let ?sent = "sendBuffers interp ?w'"
  let ?incoming = "map (\<lambda>A. entry (U_out (?sent ! A)) X) [0..<length ?sent]"
  have len: "length ?w' = length w"
    by (simp add: length_refreshPlan length_matchOversetPoints)
  have X': "X < length ?w'" using X len by simp
  have c: "recvPts (?sent ! X) = recvPts (?w' ! X)" "U_in (?sent ! X) = U_in (?w' ! X)"
    using X' by (simp_all add: sendBuffers_nth)
  have lenU: "length (U_in (?w' ! X)) = nOverPts (w ! X)"
    using X by (simp add: reconnected_fields length_reallocate)
  have match: "list_all2 (\<lambda>ps vs. length ps = length vs) (recvPts (?w' ! X)) ?incoming"
  proof (rule list_all2_all_nthI)
    show "length (recvPts (?w' ! X)) = length ?incoming"
      using X by (simp add: reconnected_recvPts length_sendBuffers len)
  next
    fix A assume "A < length (recvPts (?w' ! X))"
    then have A: "A < length w" using X by (simp add: reconnected_recvPts)
    then have "?incoming ! A = entry (pack (interp A) (?w' ! A)) X"
      by (simp add: length_sendBuffers len sendBuffers_nth)
    then show "length (recvPts (?w' ! X) ! A) = length (?incoming ! A)"
      using length_pack_entry[OF A X, of "interp A" search] by simp
  qed
  have bound: "\<forall>ps\<in>set (recvPts (?w' ! X)). \<forall>p\<in>set ps. p < length (U_in (?w' ! X))"
    using X inrange by (auto simp add: reconnected_recvPts lenU)
  from unpackAll_ok[OF match bound] obtain U' where
    U': "unpackAll (recvPts (?w' ! X)) ?incoming (U_in (?w' ! X)) = Inr U'"
        "\<forall>q. (\<forall>ps\<in>set (recvPts (?w' ! X)). q \<notin> set ps) \<longrightarrow> U' ! q = U_in (?w' ! X) ! q"
    by blast
  have r: "receive ?sent X = Inr ((?sent ! X)\<lparr>U_in := U'\<rparr>)"
    using U'(1) by (simp add: receive_def Let_def c)
  have "U' ! q = U_in (?w' ! X) ! q"
    if "\<forall>A<length w. A \<noteq> X \<longrightarrow> q \<notin> fst ` set (search A X)" for q
  proof -
    have "\<forall>ps\<in>set (recvPts (?w' ! X)). q \<notin> set ps"
      using X that by (auto simp add: reconnected_recvPts)
    then show ?thesis using U'(2) by blast
  qed
  with r show ?thesis by blast
qed


lemma set_orphanPts_reconnected:
  assumes "X < length w"
  shows "set (orphanPts (nOverPts (w ! X)) (recvPts (refreshPlan (matchOversetPoints search w) ! X))) =
         {q. q < nOverPts (w ! X) \<and> (\<forall>A<length w. A \<noteq> X \<longrightarrow> q \<notin> fst ` set (search A X))}"
proof -
  have "(\<forall>ps\<in>set (recvPts (refreshPlan (matchOversetPoints search w) ! X)). q \<notin> set ps) \<longleftrightarrow>
        (\<forall>A<length w. A \<noteq> X \<longrightarrow> q \<notin> fst ` set (search A X))" for q
  proof
    assume l: "\<forall>ps\<in>set (recvPts (refreshPlan (matchOversetPoints search w) ! X)). q \<notin> set ps"
    show "\<forall>A<length w. A \<noteq> X \<longrightarrow> q \<notin> fst ` set (search A X)"
    proof (intro allI impI)
      fix A assume A: "A < length w" "A \<noteq> X"
      then have "map fst (search A X) \<in> set (recvPts (refreshPlan (matchOversetPoints search w) ! X))"
        using assms by (auto simp add: reconnected_recvPts intro!: image_eqI[where x = A])
      with l have "q \<notin> set (map fst (search A X))" by blast
      then show "q \<notin> fst ` set (search A X)" by simp
    qed
  next
    assume "\<forall>A<length w. A \<noteq> X \<longrightarrow> q \<notin> fst ` set (search A X)"
    then show "\<forall>ps\<in>set (recvPts (refreshPlan (matchOversetPoints search w) ! X)). q \<notin> set ps"
      using assms by (auto simp add: reconnected_recvPts)
  qed
  then show ?thesis
    by (simp add: set_eq_iff mem_orphanPts)
qed

lemma distinct_orphanPts: "distinct (orphanPts nPts recv)"
  by (simp add: orphanPts_def)

lemma exchange_after_reconnect:
  assumes X: "X < length w"
    and inrange: "\<forall>A<length w. \<forall>g<length w. A \<noteq> g \<longrightarrow> (\<forall>m\<in>set (search A g). fst m < nOverPts (w ! g))"
    and unmatched: "\<forall>A<length w. A \<noteq> X \<longrightarrow> p \<notin> fst ` set (search A X)"
  shows "\<exists>w''. exchangeOversetData interp (refreshPlan (matchOversetPoints search w)) = Inr w'' \<and>
              length w'' = length w \<and>
              U_in (w'' ! X) ! p = U_in (refreshPlan (matchOversetPoints search w) ! X) ! p"
proof -
  let ?w' = "refreshPlan (matchOversetPoints search w)"
  let ?sent = "sendBuffers interp ?w'"
  have len: "length ?sent = length w"
    by (simp add: length_sendBuffers length_refreshPlan length_matchOversetPoints)
  have each: "\<exists>a. receive ?sent k = Inr a" if "k \<in> set [0..<length ?sent]" for k
  proof -
    have k: "k < length w" using that len by simp
    have "\<forall>A<length w. A \<noteq> k \<longrightarrow> (\<forall>m\<in>set (search A k). fst m < nOverPts (w ! k))"
      using inrange k by blast
    from receive_after_reconnect[of k w search interp, OF k this] show ?thesis by blast
  qed
  from collect_map_ok[of "[0..<length ?sent]" "receive ?sent", OF each] obtain w'' where
    w'': "collect (map (receive ?sent) [0..<length ?sent]) = Inr w''"
    by blast
  have ex: "exchangeOversetData interp ?w' = Inr w''"
    using w'' refreshPlan_fresh[of "matchOversetPoints search w"]
    by (simp add: exchangeOversetData_def Let_def)
  from collect_Inr[OF w''] have l: "length w'' = length w"
    and nth: "\<forall>k<length w. receive ?sent k = Inr (w'' ! k)"
    by (simp_all add: len)
  have "\<forall>A<length w. A \<noteq> X \<longrightarrow> (\<forall>m\<in>set (search A X). fst m < nOverPts (w ! X))"
    using inrange X by blast
  from receive_after_reconnect[of X w search interp, OF X this] obtain U' where
    U': "receive ?sent X = Inr ((?sent ! X)\<lparr>U_in := U'\<rparr>)"
        "\<forall>q. (\<forall>A<length w. A \<noteq> X \<longrightarrow> q \<notin> fst ` set (search A X)) \<longrightarrow> U' ! q = U_in (?w' ! X) ! q"
    by blast
  have "w'' ! X = (?sent ! X)\<lparr>U_in := U'\<rparr>"
    using nth X U'(1) by simp
  then have "U_in (w'' ! X) ! p = U' ! p" by simp
  also have "\<dots> = U_in (?w' ! X) ! p" using U'(2) unmatched by blast
  finally show ?thesis using ex l by blast
qed

text \<open>
  Claim C4.  Let \<open>p\<close> be a receptor point of grid \<open>X\<close> that the donor search of no other
  grid matches, all matched IDs being IDs of receptor points.  After the reconnection
  event and the plan refresh \<open>p\<close> is among the orphans of \<open>X\<close>, the orphan count of \<open>X\<close> is
  the number of its unmatched points and is positive, and the row of \<open>p\<close> in \<open>U_in\<close> holds
  its last value (the fallback 0 if it had none).  The exchange then completes without an
  error and leaves the row of \<open>p\<close> unchanged.
\<close>

theorem orphan_points_kept:
  assumes X: "X < length w" and p: "p < nOverPts (w ! X)"
    and unmatched: "\<forall>A<length w. A \<noteq> X \<longrightarrow> p \<notin> fst ` set (search A X)"
    and inrange: "\<forall>A<length w. \<forall>g<length w. A \<noteq> g \<longrightarrow> (\<forall>m\<in>set (search A g). fst m < nOverPts (w ! g))"
  shows "let w' = refreshPlan (matchOversetPoints search w) in
         p \<in> set (orphanPts (nOverPts (w' ! X)) (recvPts (w' ! X))) \<and>
         nOrphans (w' ! X) =
           card {q. q < nOverPts (w ! X) \<and> (\<forall>A<length w. A \<noteq> X \<longrightarrow> q \<notin> fst ` set (search A X))} \<and>
         0 < nOrphans (w' ! X) \<and>
         U_in (w' ! X) ! p =
           (if p < length (U_in (w ! X)) then U_in (w ! X) ! p else replicate (nFields (w ! X)) 0) \<and>
         (\<exists>w''. exchangeOversetData interp w' = Inr w'' \<and> length w'' = length w \<and>
                U_in (w'' ! X) ! p = U_in (w' ! X) ! p)"
proof -
  let ?w' = "refreshPlan (matchOversetPoints search w)"
  let ?orph = "orphanPts (nOverPts (w ! X)) (recvPts (?w' ! X))"
  have s: "set ?orph =
      {q. q < nOverPts (w ! X) \<and> (\<forall>A<length w. A \<noteq> X \<longrightarrow> q \<notin> fst ` set (search A X))}"
    by (rule set_orphanPts_reconnected[OF X])
  have mem: "p \<in> set ?orph" unfolding s using p unmatched by simp
  have n: "nOrphans (?w' ! X) = length ?orph"
    using X by (simp add: reconnected_fields)
  have "card (set ?orph) = length ?orph"
    by (rule distinct_card[OF distinct_orphanPts])
  then have cnt: "nOrphans (?w' ! X) =
      card {q. q < nOverPts (w ! X) \<and> (\<forall>A<length w. A \<noteq> X \<longrightarrow> q \<notin> fst ` set (search A X))}"
    using n s by simp
  have pos: "0 < nOrphans (?w' ! X)"
    using mem n by (cases ?orph) auto
  have keep: "U_in (?w' ! X) ! p =
      (if p < length (U_in (w ! X)) then U_in (w ! X) ! p else replicate (nFields (w ! X)) 0)"
    using X p by (simp add: reconnected_fields reallocate_nth)
  have nO: "nOverPts (?w' ! X) = nOverPts (w ! X)"
    using X by (simp add: reconnected_fields)
  show ?thesis
    unfolding Let_def nO
    using mem cnt pos keep exchange_after_reconnect[OF X inrange unmatched, of interp]
    by blast
qed


theorem plan_consistent_witness:
  "let c = \<lparr>nFields = 1, foundPts = [], foundEles = [], foundLocs = [], nOverPts = 3,
             nPtsRecv = [], nPtsSend = [], recvPts = [], U_in = [[7], [8], [9]], U_out = [],
             planStale = False, nOrphans = 0\<rparr>;
       search = (\<lambda>A g. if A = 0 \<and> g = Suc 0 then [(2, 5, \<lparr>x = 0, y = 0, z = 0\<rparr>)]
                       else if A = Suc 0 \<and> g = 0 then [(1, 3, \<lparr>x = 0, y = 0, z = 0\<rparr>), (0, 4, \<lparr>x = 0, y = 0, z = 0\<rparr>)]
                       else []);
       w' = refreshPlan (matchOversetPoints search [c, c])
   in nPtsSend (w' ! 1) ! 0 = nPtsRecv (w' ! 0) ! 1 \<and>
      nPtsSend (w' ! 1) ! 0 = 2 \<and>
      recvPts (w' ! 0) ! 1 = [1, 0] \<and>
      sum_list (nPtsSend (w' ! 1)) = length (concat (foundPts (w' ! 1)))"
proof -
  let ?c = "\<lparr>nFields = 1, foundPts = [], foundEles = [], foundLocs = [], nOverPts = 3,
             nPtsRecv = [], nPtsSend = [], recvPts = [], U_in = [[7::real], [8], [9]], U_out = [],
             planStale = False, nOrphans = 0\<rparr>"
  let ?search = "\<lambda>A g. if A = 0 \<and> g = Suc 0 then [(2::nat, 5::nat, \<lparr>x = 0, y = 0, z = 0\<rparr>)]
                       else if A = Suc 0 \<and> g = 0 then [(1, 3, \<lparr>x = 0, y = 0, z = 0\<rparr>), (0, 4, \<lparr>x = 0, y = 0, z = 0\<rparr>)]
                       else []"
  let ?w' = "refreshPlan (matchOversetPoints ?search [?c, ?c])"
  have f: "foundPts (?w' ! 1) ! 0 = [1, 0]"
    by (simp add: reconnected_foundPts upt_rec)
  from plan_consistent[of ?search "[?c, ?c]"] have
    a: "\<forall>A. A < length [?c, ?c] \<longrightarrow>
          sum_list (nPtsSend (?w' ! A)) = length (concat (foundPts (?w' ! A)))" and
    b: "\<forall>A X. A < length [?c, ?c] \<and> X < length [?c, ?c] \<longrightarrow>
            nPtsSend (?w' ! A) ! X = nPtsRecv (?w' ! X) ! A \<and>
            nPtsSend (?w' ! A) ! X = length (foundPts (?w' ! A) ! X) \<and>
            recvPts (?w' ! X) ! A = foundPts (?w' ! A) ! X"
    unfolding Let_def by blast+
  have a1: "sum_list (nPtsSend (?w' ! 1)) = length (concat (foundPts (?w' ! 1)))"
    using a[rule_format, of 1] by simp
  have b1: "nPtsSend (?w' ! 1) ! 0 = nPtsRecv (?w' ! 0) ! 1 \<and>
            nPtsSend (?w' ! 1) ! 0 = length (foundPts (?w' ! 1) ! 0) \<and>
            recvPts (?w' ! 0) ! 1 = foundPts (?w' ! 1) ! 0"
    using b[rule_format, of 1 0] by simp
  show ?thesis
    unfolding Let_def using a1 b1 f by simp
qed

theorem stale_plan_rejected_witness:
  "let c = \<lparr>nFields = 1, foundPts = [], foundEles = [], foundLocs = [], nOverPts = 3,
             nPtsRecv = [], nPtsSend = [], recvPts = [], U_in = [[7], [8], [9]], U_out = [],
             planStale = False, nOrphans = 0\<rparr>;
       search = (\<lambda>A g. if A = 0 \<and> g = Suc 0 then [(2, 5, \<lparr>x = 0, y = 0, z = 0\<rparr>)] else []);
       interp = (\<lambda>A e loc. [real e]);
       evs = [Reconnect search, Refresh, Reconnect search]
   in [c, c] \<noteq> [] \<and> refreshPending False evs \<and>
      run (evs @ [Exchange interp]) [c, c] = Inl StalePlan \<and>
      exchangeOversetData interp (matchOversetPoints search (refreshPlan (matchOversetPoints search [c, c])))
        = Inl StalePlan"
proof -
  let ?c = "\<lparr>nFields = 1, foundPts = [], foundEles = [], foundLocs = [], nOverPts = 3,
             nPtsRecv = [], nPtsSend = [], recvPts = [], U_in = [[7::real], [8], [9]], U_out = [],
             planStale = False, nOrphans = 0\<rparr>"
  let ?search = "\<lambda>A g. if A = 0 \<and> g = Suc 0 then [(2::nat, 5::nat, \<lparr>x = 0, y = 0, z = 0\<rparr>)] else []"
  let ?interp = "\<lambda>(A::nat) (e::nat) (loc::point). [real e]"
  let ?evs = "[Reconnect ?search, Refresh, Reconnect ?search]"
  let ?w' = "matchOversetPoints ?search (refreshPlan (matchOversetPoints ?search [?c, ?c]))"
  have h1: "[?c, ?c] \<noteq> []" by simp
  have h2: "run ?evs [?c, ?c] = Inr ?w'" by simp
  have h3: "refreshPending False ?evs" by simp
  from stale_plan_rejected[OF h1 h2 h3, of ?interp] h1 h3 show ?thesis
    unfolding Let_def by blast
qed

theorem orphan_points_kept_witness:
  "let c = \<lparr>nFields = 1, foundPts = [], foundEles = [], foundLocs = [], nOverPts = 3,
             nPtsRecv = [], nPtsSend = [], recvPts = [], U_in = [[7], [8], [9]], U_out = [],
             planStale = False, nOrphans = 0\<rparr>;
       search = (\<lambda>A g. if A = 0 \<and> g = Suc 0 then [(2, 5, \<lparr>x = 0, y = 0, z = 0\<rparr>)]
                       else if A = Suc 0 \<and> g = 0 then [(1, 3, \<lparr>x = 0, y = 0, z = 0\<rparr>), (0, 4, \<lparr>x = 0, y = 0, z = 0\<rparr>)]
                       else []);
       interp = (\<lambda>A e loc. [real e]);
       w' = refreshPlan (matchOversetPoints search [c, c])
   in 0 < nOrphans (w' ! 0) \<and>
      U_in (w' ! 0) ! 2 = [9] \<and>
      (\<exists>w''. exchangeOversetData interp w' = Inr w'' \<and> length w'' = 2 \<and> U_in (w'' ! 0) ! 2 = [9])"
proof -
  let ?c = "\<lparr>nFields = 1, foundPts = [], foundEles = [], foundLocs = [], nOverPts = 3,
             nPtsRecv = [], nPtsSend = [], recvPts = [], U_in = [[7::real], [8], [9]], U_out = [],
             planStale = False, nOrphans = 0\<rparr>"
  let ?search = "\<lambda>A g. if A = 0 \<and> g = Suc 0 then [(2::nat, 5::nat, \<lparr>x = 0, y = 0, z = 0\<rparr>)]
                       else if A = Suc 0 \<and> g = 0 then [(1, 3, \<lparr>x = 0, y = 0, z = 0\<rparr>), (0, 4, \<lparr>x = 0, y = 0, z = 0\<rparr>)]
                       else []"
  let ?interp = "\<lambda>(A::nat) (e::nat) (loc::point). [real e]"
  have h1: "0 < length [?c, ?c]" by simp
  have h2: "2 < nOverPts ([?c, ?c] ! 0)" by simp
  have h3: "\<forall>A<length [?c, ?c]. A \<noteq> 0 \<longrightarrow> 2 \<notin> fst ` set (?search A 0)"
    by (auto simp add: less_Suc_eq)
  have h4: "\<forall>A<length [?c, ?c]. \<forall>g<length [?c, ?c]. A \<noteq> g \<longrightarrow>
              (\<forall>m\<in>set (?search A g). fst m < nOverPts ([?c, ?c] ! g))"
    by (auto simp add: less_Suc_eq)
  let ?w' = "refreshPlan (matchOversetPoints ?search [?c, ?c])"
  from orphan_points_kept[OF h1 h2 h3 h4, of ?interp] have
    pos: "0 < nOrphans (?w' ! 0)" and
    keep: "U_in (?w' ! 0) ! 2 =
      (if 2 < length (U_in ([?c, ?c] ! 0)) then U_in ([?c, ?c] ! 0) ! 2
       else replicate (nFields ([?c, ?c] ! 0)) 0)" and
    ex: "\<exists>w''. exchangeOversetData ?interp ?w' = Inr w'' \<and> length w'' = length [?c, ?c] \<and>
           U_in (w'' ! 0) ! 2 = U_in (?w' ! 0) ! 2"
    unfolding Let_def by blast+
  have k: "U_in (?w' ! 0) ! 2 = [9]" using keep by simp
  from ex obtain w'' where
    "exchangeOversetData ?interp ?w' = Inr w''" "length w'' = 2" "U_in (w'' ! 0) ! 2 = [9]"
    using k by auto
  then have "\<exists>w''. exchangeOversetData ?interp ?w' = Inr w'' \<and> length w'' = 2 \<and>
           U_in (w'' ! 0) ! 2 = [9]"
    by blast
  with pos k show ?thesis
    unfolding Let_def by blast
qed

end
